theory Spec2Isabelle
  imports Main "HOL-Library.Word"
begin

unbundle bit_operations_syntax

section \<open>The PrimeSieve driver object (src/soe/PrimeSieve.cpp)\<close>

text \<open>
  The C++ class \<^verbatim>\<open>PrimeSieve\<close> is embedded as a record that is passed through every
  member function and returned updated.  A member function that can throw returns a pair:
  \<open>Inl e\<close> (the exception) or \<open>Inr v\<close> (the returned value), together with the object
  as the call leaves it.  An exception does not undo the assignments made before it, so
  the object is returned in the error case too.

  \<^verbatim>\<open>uint64_t\<close> is \<open>64 word\<close>, \<^verbatim>\<open>uint32_t\<close> is \<open>32 word\<close>.  Function pointers and the
  opaque \<^verbatim>\<open>void*\<close> context are addresses (\<open>nat\<close>), \<open>NULL\<close> is address 0.

  The fields \<^verbatim>\<open>status_\<close> and \<^verbatim>\<open>timeElapsed_\<close> are doubles (a percentage computed in
  floating point and a \<^verbatim>\<open>std::clock()\<close> difference); they, \<^verbatim>\<open>sumSegments_\<close> (only read to
  compute \<^verbatim>\<open>status_\<close>), \<^verbatim>\<open>doStatus\<close> and the \<^verbatim>\<open>parent_\<close> back-reference that
  only serves \<^verbatim>\<open>doStatus\<close> are not part of the embedding.
\<close>

type_synonym u32 = "32 word"
type_synonym u64 = "64 word"
type_synonym ptr = nat

definition NULL :: ptr where
  "NULL = 0"

text \<open>
  The exceptions of PrimeSieve.cpp.  Four are \<^verbatim>\<open>std::invalid_argument\<close>, told apart by
  their message: \<open>InvalidBound\<close> ("START/STOP must be < (2^64-1) - (2^32-1) * 10"),
  \<open>InvalidInterval\<close> ("STOP must be >= START"), \<open>InvalidFlags\<close> ("invalid flags"),
  \<open>InvalidCallback\<close> ("callback must not be NULL", "callback & cbObj must not be
  NULL").  \<open>IndexOutOfRange\<close> is the \<^verbatim>\<open>std::out_of_range\<close> of getCounts.
\<close>

datatype error = InvalidBound | InvalidInterval | InvalidFlags | InvalidCallback | IndexOutOfRange

text \<open>
  What the object does to the outside: a call of one of the four callback variants
  (function address, value, and the context for the OOP variants).  Text written to
  \<^verbatim>\<open>std::cout\<close> is kept apart, as the characters written.
\<close>

datatype call =
    Callback32 ptr u32
  | Callback32_OOP ptr u32 ptr
  | Callback64 ptr u64
  | Callback64_OOP ptr u64 ptr

record PrimeSieve =
  start :: u64
  stop :: u64
  flags :: u32
  sieveSize :: u32
  preSieveLimit :: u32
  counts :: "u64 list"
  callback32 :: ptr
  callback32_OOP :: ptr
  callback64 :: ptr
  callback64_OOP :: ptr
  cbObj :: ptr
  calls :: "call list"
  cout :: string

type_synonym 'a outcome = "(error + 'a) \<times> PrimeSieve"

subsection \<open>Constants of PrimeSieve.h\<close>

text \<open>
  Modelled from the spec: the enums of PrimeSieve.h, which is not among the source
  files.  The spec gives the flags field 20 user-visible bits (COUNT_PRIMES \<dots>
  COUNT_SEPTUPLETS, PRINT_PRIMES \<dots> PRINT_SEPTUPLETS, PRINT_STATUS) and four internal
  CALLBACK_* bits, and seven counters.  PrimeSieve.cpp fixes the layout further: the
  count flag of arity \<open>type + 1\<close> is \<^verbatim>\<open>COUNT_PRIMES << type\<close>, its print flag is
  \<^verbatim>\<open>PRINT_PRIMES << type\<close>, public flags are below \<^verbatim>\<open>1U << 20\<close>.  The callback bits are
  the four bits from bit 20 on.
\<close>

definition COUNTS_SIZE :: nat where
  "COUNTS_SIZE = 7"

definition COUNT_PRIMES :: u32 where
  "COUNT_PRIMES = push_bit 0 1"

definition PRINT_PRIMES :: u32 where
  "PRINT_PRIMES = push_bit 7 1"

definition PRINT_STATUS :: u32 where
  "PRINT_STATUS = push_bit 14 1"

definition CALLBACK32_PRIMES :: u32 where
  "CALLBACK32_PRIMES = push_bit 20 1"

definition CALLBACK32_OOP_PRIMES :: u32 where
  "CALLBACK32_OOP_PRIMES = push_bit 21 1"

definition CALLBACK64_PRIMES :: u32 where
  "CALLBACK64_PRIMES = push_bit 22 1"

definition CALLBACK64_OOP_PRIMES :: u32 where
  "CALLBACK64_OOP_PRIMES = push_bit 23 1"

definition CALLBACK_FLAGS :: u32 where
  "CALLBACK_FLAGS =
     CALLBACK32_PRIMES OR CALLBACK32_OOP_PRIMES OR CALLBACK64_PRIMES OR CALLBACK64_OOP_PRIMES"

subsection \<open>Bounds of the interval\<close>

text \<open>
  \<^verbatim>\<open>UINT64_MAX - UINT32_MAX * UINT64_C(10)\<close>, computed in 64 bits:
  \<open>(2^64 - 1) - (2^32 - 1) * 10 = 18446744030759878665\<close>.
\<close>

definition UINT64_MAX :: u64 where
  "UINT64_MAX = - 1"

definition UINT32_MAX :: u32 where
  "UINT32_MAX = - 1"

definition maxStop :: u64 where
  "maxStop = UINT64_MAX - ucast UINT32_MAX * 10"

definition setStart :: "PrimeSieve \<Rightarrow> u64 \<Rightarrow> unit outcome" where
  "setStart s v =
     (if v \<ge> maxStop then (Inl InvalidBound, s)
      else (Inr (), s\<lparr>start := v\<rparr>))"

definition setStop :: "PrimeSieve \<Rightarrow> u64 \<Rightarrow> unit outcome" where
  "setStop s v =
     (if v \<ge> maxStop then (Inl InvalidBound, s)
      else (Inr (), s\<lparr>stop := v\<rparr>))"


subsection \<open>Sieve size and pre-sieve limit\<close>

text \<open>
  Modelled from the spec: \<^verbatim>\<open>nextHighestPowerOf2\<close> of bithacks.h, which is not among the
  source files.  The spec and the comment of setSieveSize say that the sieve size is
  "rounded up to the next highest power of 2": the result is the first of the powers
  \<open>1, 2, 4, \<dots>\<close> that is not below the argument (\<open>2^32\<close> does not fit a
  \<^verbatim>\<open>uint32_t\<close> and wraps to 0).
\<close>

fun roundUpPow2 :: "nat \<Rightarrow> nat \<Rightarrow> nat \<Rightarrow> nat" where
  "roundUpPow2 0 p x = p"
| "roundUpPow2 (Suc fuel) p x = (if x \<le> p then p else roundUpPow2 fuel (2 * p) x)"

definition nextHighestPowerOf2 :: "u32 \<Rightarrow> u32" where
  "nextHighestPowerOf2 x = of_nat (roundUpPow2 32 1 (unat x))"

definition setSieveSize :: "PrimeSieve \<Rightarrow> u32 \<Rightarrow> PrimeSieve" where
  "setSieveSize s v =
     (let v1 = (if v < 1 then 1 else v);
          v2 = (if v1 > 4096 then 4096 else v1)
      in s\<lparr>sieveSize := nextHighestPowerOf2 v2\<rparr>)"

definition setPreSieveLimit :: "PrimeSieve \<Rightarrow> u32 \<Rightarrow> PrimeSieve" where
  "setPreSieveLimit s v =
     (let v1 = (if v < 13 then 13 else v);
          v2 = (if v1 > 23 then 23 else v1)
      in s\<lparr>preSieveLimit := v2\<rparr>)"

definition getSieveSize :: "PrimeSieve \<Rightarrow> u32" where
  "getSieveSize s = sieveSize s"

definition getPreSieveLimit :: "PrimeSieve \<Rightarrow> u32" where
  "getPreSieveLimit s = preSieveLimit s"

subsection \<open>Flags\<close>

definition getFlags :: "PrimeSieve \<Rightarrow> u32" where
  "getFlags s = flags s AND (push_bit 20 1 - 1)"

definition testFlags :: "PrimeSieve \<Rightarrow> u32 \<Rightarrow> bool" where
  "testFlags s f = (flags s AND f \<noteq> 0)"

definition setFlags :: "PrimeSieve \<Rightarrow> u32 \<Rightarrow> unit outcome" where
  "setFlags s f =
     (if f \<ge> push_bit 20 1 then (Inl InvalidFlags, s)
      else (Inr (), s\<lparr>flags := f\<rparr>))"


subsection \<open>Counts\<close>

definition getPrimeCount :: "PrimeSieve \<Rightarrow> u64" where
  "getPrimeCount s = counts s ! 0"

definition getTwinCount :: "PrimeSieve \<Rightarrow> u64" where
  "getTwinCount s = counts s ! 1"

definition getTripletCount :: "PrimeSieve \<Rightarrow> u64" where
  "getTripletCount s = counts s ! 2"

definition getQuadrupletCount :: "PrimeSieve \<Rightarrow> u64" where
  "getQuadrupletCount s = counts s ! 3"

definition getQuintupletCount :: "PrimeSieve \<Rightarrow> u64" where
  "getQuintupletCount s = counts s ! 4"

definition getSextupletCount :: "PrimeSieve \<Rightarrow> u64" where
  "getSextupletCount s = counts s ! 5"

definition getSeptupletCount :: "PrimeSieve \<Rightarrow> u64" where
  "getSeptupletCount s = counts s ! 6"

definition getCounts :: "PrimeSieve \<Rightarrow> u32 \<Rightarrow> error + u64" where
  "getCounts s index =
     (if unat index \<ge> COUNTS_SIZE then Inl IndexOutOfRange
      else Inr (counts s ! unat index))"

text \<open>
  \<^verbatim>\<open>reset()\<close>: the loop assigns 0 to each of the \<open>COUNTS_SIZE\<close> counters.
\<close>

definition reset :: "PrimeSieve \<Rightarrow> PrimeSieve" where
  "reset s = s\<lparr>counts := replicate COUNTS_SIZE 0\<rparr>"

subsection \<open>Small primes and k-tuplets\<close>

definition invoke :: "call \<Rightarrow> PrimeSieve \<Rightarrow> PrimeSieve" where
  "invoke c s = s\<lparr>calls := calls s @ [c]\<rparr>"

definition newline :: char where
  "newline = CHR 0x0A"

text \<open>
  \<^verbatim>\<open>doSmallPrime(min, max, type, primeStr)\<close>.  \<open>ty\<close> is the parameter \<^verbatim>\<open>type\<close>.
  \<^verbatim>\<open>primeStr[0] - '0'\<close> is computed on character codes and converted to \<^verbatim>\<open>uint32_t\<close>.
\<close>

definition doSmallPrime :: "u32 \<Rightarrow> u32 \<Rightarrow> u32 \<Rightarrow> string \<Rightarrow> PrimeSieve \<Rightarrow> PrimeSieve" where
  "doSmallPrime mn mx ty primeStr s =
     (if start s \<le> ucast mn \<and> stop s \<ge> ucast mx then
        if testFlags s CALLBACK_FLAGS \<and> ty = 0 then
          let prime = (word_of_int (of_char (primeStr ! 0) - of_char CHR ''0'') :: u32);
              s1 = (if testFlags s CALLBACK32_PRIMES
                    then invoke (Callback32 (callback32 s) prime) s else s);
              s2 = (if testFlags s1 CALLBACK32_OOP_PRIMES
                    then invoke (Callback32_OOP (callback32_OOP s1) prime (cbObj s1)) s1 else s1);
              s3 = (if testFlags s2 CALLBACK64_PRIMES
                    then invoke (Callback64 (callback64 s2) (ucast prime)) s2 else s2);
              s4 = (if testFlags s3 CALLBACK64_OOP_PRIMES
                    then invoke (Callback64_OOP (callback64_OOP s3) (ucast prime) (cbObj s3)) s3 else s3)
          in s4
        else
          let s1 = (if testFlags s (push_bit (unat ty) COUNT_PRIMES)
                    then s\<lparr>counts := (counts s)[unat ty := counts s ! unat ty + 1]\<rparr> else s);
              s2 = (if testFlags s1 (push_bit (unat ty) PRINT_PRIMES)
                    then s1\<lparr>cout := cout s1 @ primeStr @ [newline]\<rparr> else s1)
          in s2
      else s)"

text \<open>
  The eight calls of \<^verbatim>\<open>sieve()\<close> under \<^verbatim>\<open>if (start_ <= 5)\<close>, in their order.
\<close>

definition smallPrimes :: "PrimeSieve \<Rightarrow> PrimeSieve" where
  "smallPrimes s =
     (let s1 = doSmallPrime 2 2 0 ''2'' s;
          s2 = doSmallPrime 3 3 0 ''3'' s1;
          s3 = doSmallPrime 5 5 0 ''5'' s2;
          s4 = doSmallPrime 3 5 1 ''(3, 5)'' s3;
          s5 = doSmallPrime 5 7 1 ''(5, 7)'' s4;
          s6 = doSmallPrime 5 11 2 ''(5, 7, 11)'' s5;
          s7 = doSmallPrime 5 13 3 ''(5, 7, 11, 13)'' s6;
          s8 = doSmallPrime 5 17 4 ''(5, 7, 11, 13, 17)'' s7
      in s8)"


subsection \<open>The sieved segment bytes and the finder\<close>

text \<open>
  SieveOfEratosthenes.h: "Each byte of the sieve_ array holds the values i * 30 + k with
  k = { 7, 11, 13, 17, 19, 23, 29, 31 }, that is 8 values per byte and thus one for each
  bit."
\<close>

definition NUMBERS_PER_BYTE :: nat where
  "NUMBERS_PER_BYTE = 30"

definition bitValues :: "nat list" where
  "bitValues = [7, 11, 13, 17, 19, 23, 29, 31]"

definition bitNumber :: "nat \<Rightarrow> nat \<Rightarrow> nat" where
  "bitNumber b r = b * NUMBERS_PER_BYTE + bitValues ! r"

definition isPrime :: "nat \<Rightarrow> bool" where
  "isPrime n = (2 \<le> n \<and> filter (\<lambda>d. d dvd n) [2..<n] = [])"

text \<open>
  Modelled from the spec: the sieve array that the engine (SieveOfEratosthenes,
  PrimeNumberGenerator and the three Erat classes, none of them among the source files)
  hands to \<^verbatim>\<open>segmentProcessed\<close>.  By the spec's data model, after the cross-off bit
  \<open>r\<close> of byte \<open>b\<close> is set iff the number it encodes is prime, and bits that encode
  numbers outside [start, stop] are cleared.  The engine sieves from \<open>max 7 start\<close>; the
  bytes run from the one that holds \<open>lo\<close> to the one that holds \<open>hi\<close>.  The split of
  the bytes into segments of sieveSize bytes is not modelled: the spec states that the
  results do not depend on it.
\<close>

definition sieveBit :: "nat \<Rightarrow> nat \<Rightarrow> nat \<Rightarrow> nat \<Rightarrow> bool" where
  "sieveBit lo hi b r = (isPrime (bitNumber b r) \<and> lo \<le> bitNumber b r \<and> bitNumber b r \<le> hi)"

definition sieveByte :: "nat \<Rightarrow> nat \<Rightarrow> nat \<Rightarrow> 8 word" where
  "sieveByte lo hi b = horner_sum of_bool 2 (map (sieveBit lo hi b) [0..<8])"

definition byteIndex :: "nat \<Rightarrow> nat" where
  "byteIndex n = (n - 7) div NUMBERS_PER_BYTE"

definition byteRange :: "nat \<Rightarrow> nat \<Rightarrow> nat list" where
  "byteRange lo hi = [byteIndex lo..<Suc (byteIndex hi)]"

text \<open>
  Modelled from the spec: the per-arity bitmasks of PrimeNumberFinder (not among the
  source files).  The spec describes them as fixed residue patterns of the admissible
  k-tuplet constellations inside one 30-number window; with the bit values above these
  are, for twins, (11, 13), (17, 19), (29, 31); for triplets (7, 11, 13), (11, 13, 17),
  (13, 17, 19), (17, 19, 23); for quadruplets (11, 13, 17, 19); for quintuplets
  (7, \<dots>, 19) and (11, \<dots>, 23); for sextuplets (7, \<dots>, 23); for septuplets
  (11, \<dots>, 31).  Index \<open>ty\<close> is the index into the counts (arity minus one).
\<close>

definition kBitmasks :: "nat \<Rightarrow> 8 word list" where
  "kBitmasks ty =
     (if ty = 1 then [0x06, 0x18, 0xc0]
      else if ty = 2 then [0x07, 0x0e, 0x1c, 0x38]
      else if ty = 3 then [0x1e]
      else if ty = 4 then [0x1f, 0x3e]
      else if ty = 5 then [0x3f]
      else if ty = 6 then [0xfe]
      else [])"

definition popcount :: "8 word \<Rightarrow> nat" where
  "popcount w = length (filter (bit w) [0..<8])"

definition tupletMatches :: "nat \<Rightarrow> 8 word \<Rightarrow> nat" where
  "tupletMatches ty w = length (filter (\<lambda>m. w AND m = m) (kBitmasks ty))"

definition countByte :: "nat \<Rightarrow> 8 word \<Rightarrow> nat" where
  "countByte ty w = (if ty = 0 then popcount w else tupletMatches ty w)"

definition finderCount :: "nat \<Rightarrow> nat \<Rightarrow> nat \<Rightarrow> nat" where
  "finderCount ty lo hi = sum_list (map (\<lambda>b. countByte ty (sieveByte lo hi b)) (byteRange lo hi))"

definition decodeByte :: "nat \<Rightarrow> 8 word \<Rightarrow> nat list" where
  "decodeByte b w = map (bitNumber b) (filter (bit w) [0..<8])"

definition finderPrimes :: "nat \<Rightarrow> nat \<Rightarrow> nat list" where
  "finderPrimes lo hi = concat (map (\<lambda>b. decodeByte b (sieveByte lo hi b)) (byteRange lo hi))"

fun decimal :: "nat \<Rightarrow> string" where
  "decimal n =
     (if n < 10 then [char_of (48 + n)]
      else decimal (n div 10) @ [char_of (48 + n mod 10)])"

declare decimal.simps [simp del]

definition finderCallbacks :: "u64 \<Rightarrow> PrimeSieve \<Rightarrow> PrimeSieve" where
  "finderCallbacks prime s =
     (let s1 = (if testFlags s CALLBACK32_PRIMES
                then invoke (Callback32 (callback32 s) (ucast prime)) s else s);
          s2 = (if testFlags s1 CALLBACK32_OOP_PRIMES
                then invoke (Callback32_OOP (callback32_OOP s1) (ucast prime) (cbObj s1)) s1 else s1);
          s3 = (if testFlags s2 CALLBACK64_PRIMES
                then invoke (Callback64 (callback64 s2) prime) s2 else s2);
          s4 = (if testFlags s3 CALLBACK64_OOP_PRIMES
                then invoke (Callback64_OOP (callback64_OOP s3) prime (cbObj s3)) s3 else s3)
      in s4)"

definition finderCountInto :: "nat \<Rightarrow> nat \<Rightarrow> nat \<Rightarrow> PrimeSieve \<Rightarrow> PrimeSieve" where
  "finderCountInto lo hi ty s =
     (if testFlags s (push_bit ty COUNT_PRIMES)
      then s\<lparr>counts := (counts s)[ty := counts s ! ty + of_nat (finderCount ty lo hi)]\<rparr>
      else s)"

text \<open>
  Modelled from the spec: what \<^verbatim>\<open>PrimeNumberFinder finder(*this); \<dots> finder.finish()\<close>
  does to the PrimeSieve object (PrimeNumberFinder and PrimeNumberGenerator are not
  among the source files; the bootstrap loop of \<^verbatim>\<open>sieve()\<close> only feeds the generator).
  By the spec, the finder sieves [max 7 start, stop] and, depending on the flags, adds
  the number of set bits to counts[0], adds the number of bitmask matches of arity k to
  counts[k - 1], writes each prime as text, and invokes the callbacks once per prime in
  ascending order.  The text the finder writes for k-tuplets is not described by the
  spec and is not modelled.
\<close>

definition finder :: "PrimeSieve \<Rightarrow> PrimeSieve" where
  "finder s =
     (let lo = max 7 (unat (start s));
          hi = unat (stop s);
          s1 = fold (finderCountInto lo hi) [0..<COUNTS_SIZE] s;
          s2 = (if testFlags s1 PRINT_PRIMES
                then s1\<lparr>cout := cout s1 @ concat (map (\<lambda>p. decimal p @ [newline]) (finderPrimes lo hi))\<rparr>
                else s1);
          s3 = fold (\<lambda>p. finderCallbacks (of_nat p)) (finderPrimes lo hi) s2
      in s3)"

subsection \<open>Sieving\<close>

definition sieve :: "PrimeSieve \<Rightarrow> unit outcome" where
  "sieve s0 =
     (let s = reset s0 in
      if stop s < start s then (Inl InvalidInterval, s)
      else
        let s1 = (if start s \<le> 5 then smallPrimes s else s);
            s2 = (if stop s1 \<ge> 7 then finder s1 else s1)
        in (Inr (), s2))"

text \<open>Sequencing of calls: an exception ends the sequence.\<close>

definition andThen :: "'a outcome \<Rightarrow> ('a \<Rightarrow> PrimeSieve \<Rightarrow> 'b outcome) \<Rightarrow> 'b outcome" where
  "andThen r f = (case r of (Inl e, s) \<Rightarrow> (Inl e, s) | (Inr v, s) \<Rightarrow> f v s)"

text \<open>The overload \<^verbatim>\<open>sieve(start, stop)\<close>.\<close>

definition sieve2 :: "PrimeSieve \<Rightarrow> u64 \<Rightarrow> u64 \<Rightarrow> unit outcome" where
  "sieve2 s a b =
     andThen (setStart s a) (\<lambda>_ s1.
     andThen (setStop s1 b) (\<lambda>_ s2.
     sieve s2))"

text \<open>The overload \<^verbatim>\<open>getPrimeCount(start, stop)\<close>.\<close>

definition getPrimeCount2 :: "PrimeSieve \<Rightarrow> u64 \<Rightarrow> u64 \<Rightarrow> u64 outcome" where
  "getPrimeCount2 s a b =
     andThen (setFlags s COUNT_PRIMES) (\<lambda>_ s1.
     andThen (sieve2 s1 a b) (\<lambda>_ s2.
     (Inr (getPrimeCount s2), s2)))"

subsection \<open>Prime generation with callbacks\<close>

text \<open>The four overloads of \<^verbatim>\<open>generatePrimes\<close>, in the order of the source.\<close>

definition generatePrimes32 :: "PrimeSieve \<Rightarrow> u32 \<Rightarrow> u32 \<Rightarrow> ptr \<Rightarrow> unit outcome" where
  "generatePrimes32 s a b callback =
     (if callback = NULL then (Inl InvalidCallback, s)
      else
        let s1 = s\<lparr>callback32 := callback\<rparr>;
            s2 = s1\<lparr>flags := CALLBACK32_PRIMES\<rparr>;
            s3 = setPreSieveLimit s2 13
        in sieve2 s3 (ucast a) (ucast b))"

definition generatePrimes32_OOP :: "PrimeSieve \<Rightarrow> u32 \<Rightarrow> u32 \<Rightarrow> ptr \<Rightarrow> ptr \<Rightarrow> unit outcome" where
  "generatePrimes32_OOP s a b callback obj =
     (if callback = NULL \<or> obj = NULL then (Inl InvalidCallback, s)
      else
        let s1 = s\<lparr>callback32_OOP := callback\<rparr>;
            s2 = s1\<lparr>cbObj := obj\<rparr>;
            s3 = s2\<lparr>flags := CALLBACK32_OOP_PRIMES\<rparr>;
            s4 = setPreSieveLimit s3 13
        in sieve2 s4 (ucast a) (ucast b))"

definition generatePrimes64 :: "PrimeSieve \<Rightarrow> u64 \<Rightarrow> u64 \<Rightarrow> ptr \<Rightarrow> unit outcome" where
  "generatePrimes64 s a b callback =
     (if callback = NULL then (Inl InvalidCallback, s)
      else
        let s1 = s\<lparr>callback64 := callback\<rparr>;
            s2 = s1\<lparr>flags := CALLBACK64_PRIMES\<rparr>;
            s3 = setPreSieveLimit s2 13
        in sieve2 s3 a b)"

definition generatePrimes64_OOP :: "PrimeSieve \<Rightarrow> u64 \<Rightarrow> u64 \<Rightarrow> ptr \<Rightarrow> ptr \<Rightarrow> unit outcome" where
  "generatePrimes64_OOP s a b callback obj =
     (if callback = NULL \<or> obj = NULL then (Inl InvalidCallback, s)
      else
        let s1 = s\<lparr>callback64_OOP := callback\<rparr>;
            s2 = s1\<lparr>cbObj := obj\<rparr>;
            s3 = s2\<lparr>flags := CALLBACK64_OOP_PRIMES\<rparr>;
            s4 = setPreSieveLimit s3 13
        in sieve2 s4 a b)"

subsection \<open>Construction\<close>

text \<open>
  The constructor \<^verbatim>\<open>PrimeSieve()\<close>.  config.h is not among the source files; the
  defaults are the ones the comments of PrimeSieve.cpp give (sieve size 32, pre-sieve
  limit 19).  The callback fields are not initialised by the constructor; here they are
  \<open>NULL\<close>, and nothing has been called or written yet.
\<close>

definition newPrimeSieve :: PrimeSieve where
  "newPrimeSieve =
     reset (setPreSieveLimit (setSieveSize
       \<lparr>start = 0, stop = 0, flags = COUNT_PRIMES, sieveSize = 0, preSieveLimit = 0,
        counts = [], callback32 = NULL, callback32_OOP = NULL, callback64 = NULL,
        callback64_OOP = NULL, cbObj = NULL, calls = [], cout = []\<rparr> 32) 19)"


subsection \<open>Counting k-tuplets over an interval\<close>

text \<open>
  The count of k-tuplets over [a, b] as a caller obtains it:
  \<^verbatim>\<open>setFlags(COUNT_PRIMES << type); sieve(a, b); getCounts(type)\<close>, the sequence that
  \<^verbatim>\<open>getPrimeCount(start, stop)\<close> runs for \<open>type = 0\<close>.
\<close>

definition countTuplets :: "PrimeSieve \<Rightarrow> u32 \<Rightarrow> u64 \<Rightarrow> u64 \<Rightarrow> u64 outcome" where
  "countTuplets s ty a b =
     andThen (setFlags s (push_bit (unat ty) COUNT_PRIMES)) (\<lambda>_ s1.
     andThen (sieve2 s1 a b) (\<lambda>_ s2.
     (getCounts s2 ty, s2)))"

subsection \<open>What sieve() counts over an interval\<close>

text \<open>
  The entries \<open>(min, max, type)\<close> of the eight \<open>doSmallPrime\<close> calls of \<open>sieve()\<close>,
  and the number of them of a given type that lie inside [a, b].  \<open>intervalCount k a b\<close>
  is the number that \<open>sieve()\<close> over [a, b] adds to counts[k] when the count flag of
  index \<open>k\<close> is set and no callback flag is: the small entries inside the interval,
  plus, if \<open>stop \<ge> 7\<close>, what the finder counts from \<open>max 7 start\<close> on.
\<close>

definition smallTable :: "(nat \<times> nat \<times> nat) list" where
  "smallTable =
     [(2, 2, 0), (3, 3, 0), (5, 5, 0), (3, 5, 1), (5, 7, 1), (5, 11, 2), (5, 13, 3), (5, 17, 4)]"

definition smallCount :: "nat \<Rightarrow> nat \<Rightarrow> nat \<Rightarrow> nat" where
  "smallCount k a b = length (filter (\<lambda>(mn, mx, ty). ty = k \<and> a \<le> mn \<and> mx \<le> b) smallTable)"

definition intervalCount :: "nat \<Rightarrow> nat \<Rightarrow> nat \<Rightarrow> nat" where
  "intervalCount k a b = smallCount k a b + (if 7 \<le> b then finderCount k (max 7 a) b else 0)"

text \<open>
  A tuplet straddles \<open>c\<close> when it has a member \<open>\<le> c\<close> and a member \<open>> c\<close>.
  \<open>smallStraddle k a c b\<close> is the number of entries of type \<open>k\<close> of the small table
  that lie inside [a, b] and straddle \<open>c\<close>; \<open>byteStraddle k a c b i\<close> is the number of
  bitmasks of type \<open>k\<close> that match byte \<open>i\<close> of the sieve over [a, b] and whose
  numbers straddle \<open>c\<close>; \<open>straddleCount\<close> adds them over the bytes up to the one that
  holds \<open>b\<close>: the tuplets counted over [a, b] that straddle \<open>c\<close>.
\<close>

definition smallStraddle :: "nat \<Rightarrow> nat \<Rightarrow> nat \<Rightarrow> nat \<Rightarrow> nat" where
  "smallStraddle k a c b =
     length (filter (\<lambda>(mn, mx, ty). ty = k \<and> a \<le> mn \<and> mn \<le> c \<and> c < mx \<and> mx \<le> b) smallTable)"

definition byteStraddle :: "nat \<Rightarrow> nat \<Rightarrow> nat \<Rightarrow> nat \<Rightarrow> nat \<Rightarrow> nat" where
  "byteStraddle k a c b i =
     length (filter (\<lambda>m. sieveByte a b i AND m = m \<and>
                         list_ex (\<lambda>n. n \<le> c) (decodeByte i m) \<and>
                         list_ex (\<lambda>n. c < n) (decodeByte i m)) (kBitmasks k))"

definition straddleCount :: "nat \<Rightarrow> nat \<Rightarrow> nat \<Rightarrow> nat \<Rightarrow> nat" where
  "straddleCount k a c b =
     smallStraddle k a c b + sum_list (map (byteStraddle k a c b) [0..<Suc (byteIndex b)])"

text \<open>
  \<open>smallHit s k min max type\<close> is what one call \<open>doSmallPrime(min, max, type, _)\<close> adds
  to counts[k] in the object \<open>s\<close>, and \<open>smallHits s k\<close> what the eight calls of
  \<open>sieve()\<close> add together.
\<close>

definition smallHit :: "PrimeSieve \<Rightarrow> nat \<Rightarrow> u32 \<Rightarrow> u32 \<Rightarrow> u32 \<Rightarrow> u64" where
  "smallHit s k mn mx ty =
     of_bool (unat ty = k \<and> start s \<le> ucast mn \<and> ucast mx \<le> stop s \<and>
              \<not> (testFlags s CALLBACK_FLAGS \<and> ty = 0) \<and>
              testFlags s (push_bit (unat ty) COUNT_PRIMES))"

definition smallHits :: "PrimeSieve \<Rightarrow> nat \<Rightarrow> u64" where
  "smallHits s k =
     smallHit s k 2 2 0 + smallHit s k 3 3 0 + smallHit s k 5 5 0 + smallHit s k 3 5 1 +
     smallHit s k 5 7 1 + smallHit s k 5 11 2 + smallHit s k 5 13 3 + smallHit s k 5 17 4"

subsection \<open>Frame of a call\<close>

text \<open>
  \<open>sameSettings s s'\<close>: the object \<open>s'\<close> differs from \<open>s\<close> at most in the counts, the
  callback invocations made and the text written.
\<close>

definition sameSettings :: "PrimeSieve \<Rightarrow> PrimeSieve \<Rightarrow> bool" where
  "sameSettings s s' =
     (start s' = start s \<and> stop s' = stop s \<and> flags s' = flags s \<and>
      sieveSize s' = sieveSize s \<and> preSieveLimit s' = preSieveLimit s \<and>
      callback32 s' = callback32 s \<and> callback32_OOP s' = callback32_OOP s \<and>
      callback64 s' = callback64 s \<and> callback64_OOP s' = callback64_OOP s \<and>
      cbObj s' = cbObj s)"

section \<open>Properties\<close>

subsection \<open>The bound of start and stop\<close>

lemma maxStop_value: "maxStop = 18446744030759878665"
proof -
  have "(ucast (- 1 :: u32) :: u64) = 4294967295"
    by (simp add: unsigned_minus_1_eq_mask mask_eq_exp_minus_1)
  then show ?thesis
    by (simp add: maxStop_def UINT64_MAX_def UINT32_MAX_def)
qed

lemma unat_maxStop: "unat maxStop = 2 ^ 64 - 10 * 2 ^ 32 + 9"
  by (simp add: maxStop_value)

text \<open>
  C2, as stated, fails: the claim puts the bound at \<open>2^64 - 10 * 2^32\<close>, but
  \<open>setStop\<close> and \<open>setStart\<close> accept that very value (18446744030759878656), which is
  not below the claimed bound.
\<close>

theorem setStop_bound_counterexample:
  "\<not> unat (18446744030759878656 :: u64) < 2 ^ 64 - 10 * 2 ^ 32 \<and>
   fst (setStop newPrimeSieve 18446744030759878656) = Inr () \<and>
   stop (snd (setStop newPrimeSieve 18446744030759878656)) = 18446744030759878656 \<and>
   fst (setStart newPrimeSieve 18446744030759878656) = Inr ()"
  by (simp add: setStop_def setStart_def maxStop_value)

text \<open>
  C2, amended: for every value \<open>v\<close>, \<open>setStop v\<close> (and likewise \<open>setStart v\<close>) succeeds
  and stores \<open>v\<close> exactly when \<open>v < (2^64 - 1) - (2^32 - 1) * 10 = 2^64 - 10 * 2^32 + 9\<close>,
  and raises InvalidBound otherwise, leaving the object as it was; the largest allowed
  stop, \<open>maxStop - 1\<close>, succeeds and the value one greater fails with InvalidBound.
\<close>

theorem setStop_setStart_bound:
  "setStop s v = (if unat v < 2 ^ 64 - 10 * 2 ^ 32 + 9 then (Inr (), s\<lparr>stop := v\<rparr>)
                  else (Inl InvalidBound, s)) \<and>
   setStart s v = (if unat v < 2 ^ 64 - 10 * 2 ^ 32 + 9 then (Inr (), s\<lparr>start := v\<rparr>)
                  else (Inl InvalidBound, s)) \<and>
   fst (setStop s (maxStop - 1)) = Inr () \<and>
   fst (setStop s (maxStop - 1 + 1)) = Inl InvalidBound"
proof -
  have "v \<ge> maxStop \<longleftrightarrow> \<not> unat v < 2 ^ 64 - 10 * 2 ^ 32 + 9"
    by (simp add: word_le_nat_alt unat_maxStop not_less)
  moreover have "\<not> maxStop - 1 \<ge> maxStop"
    by (simp add: maxStop_value)
  ultimately show ?thesis
    by (simp add: setStop_def setStart_def)
qed

subsection \<open>The interval check of sieve()\<close>

lemma fst_sieve: "fst (sieve s) = (if stop s < start s then Inl InvalidInterval else Inr ())"
  by (simp add: sieve_def Let_def reset_def)

text \<open>
  C7: \<open>sieve()\<close> raises InvalidInterval if and only if the configured stop is strictly
  less than the configured start; in every other case it returns normally.
\<close>

theorem sieve_InvalidInterval_iff:
  "fst (sieve s) = (if stop s < start s then Inl InvalidInterval else Inr ())"
  by (rule fst_sieve)

subsection \<open>The sieve size\<close>

lemma roundUpPow2_least:
  "p = 2 ^ j \<Longrightarrow> 0 < x \<Longrightarrow> j = 0 \<or> 2 ^ (j - 1) < x \<Longrightarrow> x \<le> 2 ^ (j + fuel) \<Longrightarrow>
   \<exists>k. roundUpPow2 fuel p x = 2 ^ k \<and> x \<le> 2 ^ k \<and> 2 ^ k < 2 * x"
proof (induction fuel arbitrary: j p)
  case 0
  then have "x \<le> 2 ^ j" by simp
  moreover have "(2::nat) ^ j < 2 * x"
  proof (cases j)
    case 0
    with \<open>0 < x\<close> show ?thesis by simp
  next
    case (Suc i)
    with "0.prems"(3) show ?thesis by simp
  qed
  ultimately show ?case using "0.prems"(1) by auto
next
  case (Suc fuel)
  show ?case
  proof (cases "x \<le> p")
    case True
    have "(2::nat) ^ j < 2 * x"
    proof (cases j)
      case 0
      with \<open>0 < x\<close> show ?thesis by simp
    next
      case (Suc i)
      with Suc.prems(3) show ?thesis by simp
    qed
    with True Suc.prems(1) show ?thesis by auto
  next
    case False
    have "\<exists>k. roundUpPow2 fuel (2 * p) x = 2 ^ k \<and> x \<le> 2 ^ k \<and> 2 ^ k < 2 * x"
    proof (rule Suc.IH [of "2 * p" "Suc j"])
      show "2 * p = 2 ^ Suc j" using Suc.prems(1) by simp
      show "0 < x" by (rule Suc.prems(2))
      show "Suc j = 0 \<or> 2 ^ (Suc j - 1) < x" using False Suc.prems(1) by simp
      show "x \<le> 2 ^ (Suc j + fuel)" using Suc.prems(4) by simp
    qed
    with False show ?thesis by simp
  qed
qed

lemma clamp_bounds:
  fixes v :: u32
  shows "1 \<le> unat (if (if v < 1 then 1 else v) > 4096 then 4096 else (if v < 1 then 1 else v))"
    and "unat (if (if v < 1 then 1 else v) > 4096 then 4096 else (if v < 1 then 1 else v)) \<le> 4096"
    and "(if (if v < 1 then 1 else v) > 4096 then 4096 else (if v < 1 then 1 else v)) = max 1 (min 4096 v)"
proof -
  show "1 \<le> unat (if (if v < 1 then 1 else v) > 4096 then 4096 else (if v < 1 then 1 else v))"
    by (auto simp: word_less_nat_alt not_less)
  show "unat (if (if v < 1 then 1 else v) > 4096 then 4096 else (if v < 1 then 1 else v)) \<le> 4096"
    by (auto simp: word_less_nat_alt not_less)
  show "(if (if v < 1 then 1 else v) > 4096 then 4096 else (if v < 1 then 1 else v)) = max 1 (min 4096 v)"
    by (auto simp: max_def min_def not_less not_le)
qed

text \<open>
  C8: \<open>setSieveSize\<close> has no error branch, and for every input \<open>v\<close> the sieve size
  it stores is a power of two \<open>2^k\<close> with \<open>k \<le> 12\<close> (so between 1 and 4096
  kilobytes): the input clamped to [1, 4096], \<open>max 1 (min 4096 v)\<close>, rounded up to the
  next power of two (the power of two that is not below the clamped value and less than
  twice it).
\<close>

theorem setSieveSize_power_of_two:
  "\<exists>k. k \<le> 12 \<and> getSieveSize (setSieveSize s v) = 2 ^ k \<and>
       unat (max 1 (min 4096 v)) \<le> 2 ^ k \<and> 2 ^ k < 2 * unat (max 1 (min 4096 v))"
proof -
  define c where "c = (if (if v < 1 then 1 else v) > 4096 then 4096 else (if v < 1 then 1 else v))"
  have c1: "1 \<le> unat c" and c2: "unat c \<le> 4096" and c3: "c = max 1 (min 4096 v)"
    unfolding c_def by (rule clamp_bounds)+
  have "\<exists>k. roundUpPow2 32 1 (unat c) = 2 ^ k \<and> unat c \<le> 2 ^ k \<and> 2 ^ k < 2 * unat c"
  proof (rule roundUpPow2_least [of 1 0])
    show "(1::nat) = 2 ^ 0" by simp
    show "0 < unat c" using c1 by simp
    show "(0::nat) = 0 \<or> 2 ^ (0 - 1) < unat c" by simp
    show "unat c \<le> 2 ^ (0 + 32)" using c2 by simp
  qed
  then obtain k where k: "roundUpPow2 32 1 (unat c) = 2 ^ k" "unat c \<le> 2 ^ k" "2 ^ k < 2 * unat c"
    by blast
  have lt: "(2::nat) ^ k < 2 ^ 13" using k(3) c2 by simp
  have "k < 13" by (rule power_less_imp_less_exp [OF _ lt]) simp
  then have k12: "k \<le> 12" by simp
  have "getSieveSize (setSieveSize s v) = of_nat (roundUpPow2 32 1 (unat c))"
    by (simp add: getSieveSize_def setSieveSize_def Let_def nextHighestPowerOf2_def c_def)
  then have "getSieveSize (setSieveSize s v) = 2 ^ k"
    using k(1) by simp
  with k12 k(2,3) c3 show ?thesis by auto
qed

subsection \<open>What a call leaves unchanged\<close>

lemma sameSettings_refl: "sameSettings s s"
  by (simp add: sameSettings_def)

lemma sameSettings_trans: "sameSettings s s1 \<Longrightarrow> sameSettings s1 s2 \<Longrightarrow> sameSettings s s2"
  by (simp add: sameSettings_def)

lemma sameSettings_testFlags: "sameSettings s s' \<Longrightarrow> testFlags s' f = testFlags s f"
  by (simp add: sameSettings_def testFlags_def)

lemma sameSettings_reset: "sameSettings s (reset s)"
  by (simp add: sameSettings_def reset_def)

lemma sameSettings_LetI:
  "sameSettings s v \<Longrightarrow> (\<And>x. sameSettings s x \<Longrightarrow> sameSettings s (f x)) \<Longrightarrow>
   sameSettings s (Let v f)"
  by simp

lemma sameSettings_Let_valueI:
  "(\<And>x. sameSettings s (f x)) \<Longrightarrow> sameSettings s (Let v f)"
  by simp

lemma sameSettings_ifI:
  "sameSettings s a \<Longrightarrow> sameSettings s b \<Longrightarrow> sameSettings s (if c then a else b)"
  by simp

lemma sameSettings_invoke: "sameSettings s x \<Longrightarrow> sameSettings s (invoke c x)"
  by (simp add: sameSettings_def invoke_def)

lemma sameSettings_counts_update: "sameSettings s x \<Longrightarrow> sameSettings s (x\<lparr>counts := c\<rparr>)"
  by (simp add: sameSettings_def)

lemma sameSettings_cout_update: "sameSettings s x \<Longrightarrow> sameSettings s (x\<lparr>cout := c\<rparr>)"
  by (simp add: sameSettings_def)

lemmas sameSettings_intros =
  sameSettings_LetI sameSettings_Let_valueI sameSettings_ifI sameSettings_invoke
  sameSettings_counts_update sameSettings_cout_update sameSettings_refl

lemma sameSettings_doSmallPrime': "sameSettings s0 s \<Longrightarrow> sameSettings s0 (doSmallPrime mn mx ty str s)"
  unfolding doSmallPrime_def
  by (intro sameSettings_intros) assumption+

lemma sameSettings_doSmallPrime: "sameSettings s (doSmallPrime mn mx ty str s)"
  by (rule sameSettings_doSmallPrime' [OF sameSettings_refl])

lemma sameSettings_smallPrimes: "sameSettings s (smallPrimes s)"
  unfolding smallPrimes_def
  by (intro sameSettings_LetI sameSettings_doSmallPrime' sameSettings_refl) assumption+

lemma sameSettings_fold:
  assumes "\<And>x s. sameSettings s (f x s)"
  shows "sameSettings s (fold f xs s)"
proof (induction xs arbitrary: s)
  case Nil
  show ?case by (simp add: sameSettings_refl)
next
  case (Cons x xs)
  have "sameSettings s (f x s)" by (rule assms)
  moreover have "sameSettings (f x s) (fold f xs (f x s))" by (rule Cons.IH)
  ultimately show ?case by (simp add: sameSettings_trans)
qed

lemma sameSettings_finderCountInto: "sameSettings s (finderCountInto lo hi ty s)"
  by (simp add: sameSettings_def finderCountInto_def)

lemma sameSettings_finderCallbacks: "sameSettings s (finderCallbacks p s)"
  unfolding finderCallbacks_def
  by (intro sameSettings_intros) assumption+

lemma sameSettings_finder: "sameSettings s (finder s)"
proof -
  let ?lo = "max 7 (unat (start s))" and ?hi = "unat (stop s)"
  let ?s1 = "fold (finderCountInto ?lo ?hi) [0..<COUNTS_SIZE] s"
  let ?s2 = "if testFlags ?s1 PRINT_PRIMES
             then ?s1\<lparr>cout := cout ?s1 @ concat (map (\<lambda>p. decimal p @ [newline]) (finderPrimes ?lo ?hi))\<rparr>
             else ?s1"
  have 1: "sameSettings s ?s1"
    by (rule sameSettings_fold) (rule sameSettings_finderCountInto)
  have 2: "sameSettings ?s1 ?s2"
    by (simp add: sameSettings_def)
  have 3: "sameSettings ?s2 (fold (\<lambda>p. finderCallbacks (of_nat p)) (finderPrimes ?lo ?hi) ?s2)"
    by (rule sameSettings_fold) (rule sameSettings_finderCallbacks)
  have "finder s = fold (\<lambda>p. finderCallbacks (of_nat p)) (finderPrimes ?lo ?hi) ?s2"
    by (simp add: finder_def Let_def)
  moreover have "sameSettings s (fold (\<lambda>p. finderCallbacks (of_nat p)) (finderPrimes ?lo ?hi) ?s2)"
    by (rule sameSettings_trans [OF sameSettings_trans [OF 1 2] 3])
  ultimately show ?thesis by simp
qed

lemma sameSettings_sieve: "sameSettings s (snd (sieve s))"
proof -
  let ?r = "reset s"
  let ?s1 = "if start ?r \<le> 5 then smallPrimes ?r else ?r"
  let ?s2 = "if stop ?s1 \<ge> 7 then finder ?s1 else ?s1"
  have r: "sameSettings s ?r" by (rule sameSettings_reset)
  have a: "sameSettings ?r ?s1" by (simp add: sameSettings_smallPrimes sameSettings_refl)
  have b: "sameSettings ?s1 ?s2" by (simp add: sameSettings_finder sameSettings_refl)
  have c: "sameSettings s ?s2"
    by (rule sameSettings_trans [OF sameSettings_trans [OF r a] b])
  have "snd (sieve s) = (if stop ?r < start ?r then ?r else ?s2)"
    by (simp add: sieve_def Let_def)
  with r c show ?thesis by simp
qed

lemma sieve2_cases:
  "sieve2 s a b =
     (if a \<ge> maxStop then (Inl InvalidBound, s)
      else if b \<ge> maxStop then (Inl InvalidBound, s\<lparr>start := a\<rparr>)
      else sieve (s\<lparr>start := a, stop := b\<rparr>))"
  by (simp add: sieve2_def andThen_def setStart_def setStop_def)

lemma flags_sieve: "flags (snd (sieve s)) = flags s"
  using sameSettings_sieve [of s] by (simp add: sameSettings_def)

lemma preSieveLimit_sieve: "preSieveLimit (snd (sieve s)) = preSieveLimit s"
  using sameSettings_sieve [of s] by (simp add: sameSettings_def)

lemma flags_sieve2: "flags (snd (sieve2 s a b)) = flags s"
  by (simp add: sieve2_cases flags_sieve)

lemma preSieveLimit_sieve2: "preSieveLimit (snd (sieve2 s a b)) = preSieveLimit s"
  by (simp add: sieve2_cases preSieveLimit_sieve)

subsection \<open>The public flags\<close>

lemma public_mask: "(push_bit 20 1 - 1 :: u32) = mask 20"
  by (simp add: mask_eq_exp_minus_1)

lemma CALLBACK_FLAGS_value: "CALLBACK_FLAGS = 0xF00000"
  by (simp add: CALLBACK_FLAGS_def CALLBACK32_PRIMES_def CALLBACK32_OOP_PRIMES_def
      CALLBACK64_PRIMES_def CALLBACK64_OOP_PRIMES_def)

lemma CALLBACK_FLAGS_private: "(mask 20 :: u32) AND CALLBACK_FLAGS = 0"
  by (simp add: CALLBACK_FLAGS_value mask_eq_exp_minus_1)

text \<open>
  C9: for every state of the object (so after any sequence of operations) \<open>getFlags\<close>
  returns a value below \<open>2^20\<close>.  The four CALLBACK_* bits are the bits 20 to 23; they are
  masked out: no callback bit is set in the value \<open>getFlags\<close> returns, setting them
  in the flags field does not change that value, and a flags field that holds just a
  callback bit, as \<open>generatePrimes\<close> installs it, reads as 0.
\<close>

theorem getFlags_below_2_20:
  "unat (getFlags s) < 2 ^ 20 \<and>
   getFlags s AND CALLBACK_FLAGS = 0 \<and>
   getFlags (s\<lparr>flags := flags s OR CALLBACK_FLAGS\<rparr>) = getFlags s \<and>
   CALLBACK32_PRIMES = 2 ^ 20 \<and> CALLBACK32_OOP_PRIMES = 2 ^ 21 \<and>
   CALLBACK64_PRIMES = 2 ^ 22 \<and> CALLBACK64_OOP_PRIMES = 2 ^ 23 \<and>
   getFlags (s\<lparr>flags := CALLBACK32_PRIMES\<rparr>) = 0 \<and>
   getFlags (s\<lparr>flags := CALLBACK32_OOP_PRIMES\<rparr>) = 0 \<and>
   getFlags (s\<lparr>flags := CALLBACK64_PRIMES\<rparr>) = 0 \<and>
   getFlags (s\<lparr>flags := CALLBACK64_OOP_PRIMES\<rparr>) = 0"
proof -
  have "getFlags s < 2 ^ 20"
    unfolding getFlags_def public_mask by (rule and_mask_less') simp
  then have 1: "unat (getFlags s) < 2 ^ 20"
    by (simp add: word_less_nat_alt)
  have 2: "getFlags s AND CALLBACK_FLAGS = 0"
    unfolding getFlags_def public_mask
    by (simp add: and.assoc CALLBACK_FLAGS_private)
  have 3: "getFlags (s\<lparr>flags := flags s OR CALLBACK_FLAGS\<rparr>) = getFlags s"
    unfolding getFlags_def public_mask
    by (simp add: bit.conj_disj_distrib2 and.commute [of CALLBACK_FLAGS] CALLBACK_FLAGS_private)
  have 4: "getFlags (s\<lparr>flags := CALLBACK32_PRIMES\<rparr>) = 0"
    "getFlags (s\<lparr>flags := CALLBACK32_OOP_PRIMES\<rparr>) = 0"
    "getFlags (s\<lparr>flags := CALLBACK64_PRIMES\<rparr>) = 0"
    "getFlags (s\<lparr>flags := CALLBACK64_OOP_PRIMES\<rparr>) = 0"
    by (simp_all add: getFlags_def CALLBACK32_PRIMES_def CALLBACK32_OOP_PRIMES_def
        CALLBACK64_PRIMES_def CALLBACK64_OOP_PRIMES_def)
  have 5: "CALLBACK32_PRIMES = 2 ^ 20" "CALLBACK32_OOP_PRIMES = 2 ^ 21"
    "CALLBACK64_PRIMES = 2 ^ 22" "CALLBACK64_OOP_PRIMES = 2 ^ 23"
    by (simp_all add: CALLBACK32_PRIMES_def CALLBACK32_OOP_PRIMES_def
        CALLBACK64_PRIMES_def CALLBACK64_OOP_PRIMES_def)
  from 1 2 3 4 5 show ?thesis by blast
qed

subsection \<open>getPrimeCount(start, stop)\<close>

lemma setFlags_COUNT_PRIMES: "setFlags s COUNT_PRIMES = (Inr (), s\<lparr>flags := COUNT_PRIMES\<rparr>)"
  by (simp add: setFlags_def COUNT_PRIMES_def word_le_nat_alt)

text \<open>
  C10: \<open>getPrimeCount(start, stop)\<close> first overwrites the flags field with exactly
  COUNT_PRIMES, whatever flags the object held, then runs \<open>sieve(start, stop)\<close> on that
  object; the flags are still COUNT_PRIMES when the call ends, and if the sieve did not
  raise, the call returns counts[0].
\<close>

theorem getPrimeCount2_overwrites_flags:
  "\<exists>r s'. sieve2 (s\<lparr>flags := COUNT_PRIMES\<rparr>) a b = (r, s') \<and>
          flags s' = COUNT_PRIMES \<and>
          getPrimeCount2 s a b = (case r of Inl e \<Rightarrow> Inl e | Inr u \<Rightarrow> Inr (counts s' ! 0), s')"
proof -
  obtain r s' where rs: "sieve2 (s\<lparr>flags := COUNT_PRIMES\<rparr>) a b = (r, s')"
    by (cases "sieve2 (s\<lparr>flags := COUNT_PRIMES\<rparr>) a b")
  have "flags s' = COUNT_PRIMES"
    using flags_sieve2 [of "s\<lparr>flags := COUNT_PRIMES\<rparr>" a b] rs by simp
  moreover have "getPrimeCount2 s a b = (case r of Inl e \<Rightarrow> Inl e | Inr u \<Rightarrow> Inr (counts s' ! 0), s')"
    by (simp add: getPrimeCount2_def setFlags_COUNT_PRIMES andThen_def rs getPrimeCount_def
        split: sum.split)
  ultimately show ?thesis using rs by blast
qed

subsection \<open>generatePrimes\<close>

lemma setPreSieveLimit_13: "setPreSieveLimit s 13 = s\<lparr>preSieveLimit := 13\<rparr>"
  by (simp add: setPreSieveLimit_def)

text \<open>
  C6: each of the four \<open>generatePrimes\<close> variants, called with a non-null callback (and a
  non-null context for the two OOP variants), runs \<open>sieve(start, stop)\<close> on an object
  whose flags field is exactly the variant's CALLBACK_* bit (a single bit: bit 20, 21, 22
  or 23) and whose preSieveLimit is 13; both still hold when the call ends.
\<close>

theorem generatePrimes_sets_flags:
  assumes "callback \<noteq> NULL" and "obj \<noteq> NULL"
  shows
   "(\<exists>s'. flags s' = CALLBACK32_PRIMES \<and> preSieveLimit s' = 13 \<and>
          generatePrimes32 s a32 b32 callback = sieve2 s' (ucast a32) (ucast b32)) \<and>
    flags (snd (generatePrimes32 s a32 b32 callback)) = CALLBACK32_PRIMES \<and>
    preSieveLimit (snd (generatePrimes32 s a32 b32 callback)) = 13 \<and>
    (\<exists>s'. flags s' = CALLBACK32_OOP_PRIMES \<and> preSieveLimit s' = 13 \<and>
          generatePrimes32_OOP s a32 b32 callback obj = sieve2 s' (ucast a32) (ucast b32)) \<and>
    flags (snd (generatePrimes32_OOP s a32 b32 callback obj)) = CALLBACK32_OOP_PRIMES \<and>
    preSieveLimit (snd (generatePrimes32_OOP s a32 b32 callback obj)) = 13 \<and>
    (\<exists>s'. flags s' = CALLBACK64_PRIMES \<and> preSieveLimit s' = 13 \<and>
          generatePrimes64 s a b callback = sieve2 s' a b) \<and>
    flags (snd (generatePrimes64 s a b callback)) = CALLBACK64_PRIMES \<and>
    preSieveLimit (snd (generatePrimes64 s a b callback)) = 13 \<and>
    (\<exists>s'. flags s' = CALLBACK64_OOP_PRIMES \<and> preSieveLimit s' = 13 \<and>
          generatePrimes64_OOP s a b callback obj = sieve2 s' a b) \<and>
    flags (snd (generatePrimes64_OOP s a b callback obj)) = CALLBACK64_OOP_PRIMES \<and>
    preSieveLimit (snd (generatePrimes64_OOP s a b callback obj)) = 13 \<and>
    CALLBACK32_PRIMES = 2 ^ 20 \<and> CALLBACK32_OOP_PRIMES = 2 ^ 21 \<and>
    CALLBACK64_PRIMES = 2 ^ 22 \<and> CALLBACK64_OOP_PRIMES = 2 ^ 23"
proof -
  let ?s1 = "s\<lparr>callback32 := callback, flags := CALLBACK32_PRIMES, preSieveLimit := 13\<rparr>"
  let ?s2 = "s\<lparr>callback32_OOP := callback, cbObj := obj, flags := CALLBACK32_OOP_PRIMES,
               preSieveLimit := 13\<rparr>"
  let ?s3 = "s\<lparr>callback64 := callback, flags := CALLBACK64_PRIMES, preSieveLimit := 13\<rparr>"
  let ?s4 = "s\<lparr>callback64_OOP := callback, cbObj := obj, flags := CALLBACK64_OOP_PRIMES,
               preSieveLimit := 13\<rparr>"
  have g1: "generatePrimes32 s a32 b32 callback = sieve2 ?s1 (ucast a32) (ucast b32)"
    using assms by (simp add: generatePrimes32_def Let_def setPreSieveLimit_13)
  have g2: "generatePrimes32_OOP s a32 b32 callback obj = sieve2 ?s2 (ucast a32) (ucast b32)"
    using assms by (simp add: generatePrimes32_OOP_def Let_def setPreSieveLimit_13)
  have g3: "generatePrimes64 s a b callback = sieve2 ?s3 a b"
    using assms by (simp add: generatePrimes64_def Let_def setPreSieveLimit_13)
  have g4: "generatePrimes64_OOP s a b callback obj = sieve2 ?s4 a b"
    using assms by (simp add: generatePrimes64_OOP_def Let_def setPreSieveLimit_13)
  have e1: "\<exists>s'. flags s' = CALLBACK32_PRIMES \<and> preSieveLimit s' = 13 \<and>
          generatePrimes32 s a32 b32 callback = sieve2 s' (ucast a32) (ucast b32)"
    by (rule exI [of _ ?s1]) (simp add: g1)
  have e2: "\<exists>s'. flags s' = CALLBACK32_OOP_PRIMES \<and> preSieveLimit s' = 13 \<and>
          generatePrimes32_OOP s a32 b32 callback obj = sieve2 s' (ucast a32) (ucast b32)"
    by (rule exI [of _ ?s2]) (simp add: g2)
  have e3: "\<exists>s'. flags s' = CALLBACK64_PRIMES \<and> preSieveLimit s' = 13 \<and>
          generatePrimes64 s a b callback = sieve2 s' a b"
    by (rule exI [of _ ?s3]) (simp add: g3)
  have e4: "\<exists>s'. flags s' = CALLBACK64_OOP_PRIMES \<and> preSieveLimit s' = 13 \<and>
          generatePrimes64_OOP s a b callback obj = sieve2 s' a b"
    by (rule exI [of _ ?s4]) (simp add: g4)
  have f: "flags (snd (generatePrimes32 s a32 b32 callback)) = CALLBACK32_PRIMES"
    "preSieveLimit (snd (generatePrimes32 s a32 b32 callback)) = 13"
    "flags (snd (generatePrimes32_OOP s a32 b32 callback obj)) = CALLBACK32_OOP_PRIMES"
    "preSieveLimit (snd (generatePrimes32_OOP s a32 b32 callback obj)) = 13"
    "flags (snd (generatePrimes64 s a b callback)) = CALLBACK64_PRIMES"
    "preSieveLimit (snd (generatePrimes64 s a b callback)) = 13"
    "flags (snd (generatePrimes64_OOP s a b callback obj)) = CALLBACK64_OOP_PRIMES"
    "preSieveLimit (snd (generatePrimes64_OOP s a b callback obj)) = 13"
    by (simp_all add: g1 g2 g3 g4 flags_sieve2 preSieveLimit_sieve2)
  have c: "CALLBACK32_PRIMES = 2 ^ 20" "CALLBACK32_OOP_PRIMES = 2 ^ 21"
    "CALLBACK64_PRIMES = 2 ^ 22" "CALLBACK64_OOP_PRIMES = 2 ^ 23"
    by (simp_all add: CALLBACK32_PRIMES_def CALLBACK32_OOP_PRIMES_def
        CALLBACK64_PRIMES_def CALLBACK64_OOP_PRIMES_def)
  from e1 e2 e3 e4 f c show ?thesis by blast
qed

theorem generatePrimes_sets_flags_witness:
  "(1::nat) \<noteq> NULL \<and>
   flags (snd (generatePrimes32 newPrimeSieve 0 30 1)) = CALLBACK32_PRIMES \<and>
   preSieveLimit (snd (generatePrimes32 newPrimeSieve 0 30 1)) = 13 \<and>
   flags (snd (generatePrimes32_OOP newPrimeSieve 0 30 1 1)) = CALLBACK32_OOP_PRIMES \<and>
   preSieveLimit (snd (generatePrimes32_OOP newPrimeSieve 0 30 1 1)) = 13 \<and>
   flags (snd (generatePrimes64 newPrimeSieve 0 30 1)) = CALLBACK64_PRIMES \<and>
   preSieveLimit (snd (generatePrimes64 newPrimeSieve 0 30 1)) = 13 \<and>
   flags (snd (generatePrimes64_OOP newPrimeSieve 0 30 1 1)) = CALLBACK64_OOP_PRIMES \<and>
   preSieveLimit (snd (generatePrimes64_OOP newPrimeSieve 0 30 1 1)) = 13"
  using generatePrimes_sets_flags [where callback = 1 and obj = 1 and s = newPrimeSieve
      and ?a32.0 = 0 and ?b32.0 = 30 and a = 0 and b = 30]
  by (simp add: NULL_def)

subsection \<open>Callbacks over [0, 30]\<close>

lemma finderPrimes_7_30: "finderPrimes 7 30 = [7, 11, 13, 17, 19, 23, 29]"
  by code_simp

lemmas flag_values =
  CALLBACK_FLAGS_value CALLBACK32_PRIMES_def CALLBACK32_OOP_PRIMES_def
  CALLBACK64_PRIMES_def CALLBACK64_OOP_PRIMES_def COUNT_PRIMES_def PRINT_PRIMES_def

lemma below_7_cases: "ty < 7 \<Longrightarrow> ty = 0 \<or> ty = 1 \<or> ty = 2 \<or> ty = 3 \<or> ty = 4 \<or> ty = 5 \<or> ty = (6::nat)"
  by arith

lemma callback_flags_no_count:
  assumes "flags s AND mask 20 = 0" and "ty < 7"
  shows "\<not> testFlags s (push_bit ty COUNT_PRIMES)"
proof -
  have "(mask 20 :: u32) AND push_bit ty COUNT_PRIMES = push_bit ty COUNT_PRIMES"
    using below_7_cases [OF assms(2)]
    by (elim disjE) (simp_all add: COUNT_PRIMES_def mask_eq_exp_minus_1)
  then have "flags s AND push_bit ty COUNT_PRIMES = (flags s AND mask 20) AND push_bit ty COUNT_PRIMES"
    by (simp add: and.assoc)
  then show ?thesis
    by (simp add: testFlags_def assms(1))
qed

lemma fold_finderCountInto_no_count:
  assumes "flags s AND mask 20 = 0"
  shows "fold (finderCountInto lo hi) [0..<COUNTS_SIZE] s = s"
proof -
  have "list_all (\<lambda>ty. ty < 7) xs \<Longrightarrow> fold (finderCountInto lo hi) xs s = s" for xs
    by (induction xs) (simp_all add: finderCountInto_def callback_flags_no_count [OF assms])
  moreover have "list_all (\<lambda>ty. ty < 7) [0..<COUNTS_SIZE]"
    by (simp add: COUNTS_SIZE_def list_all_iff)
  ultimately show ?thesis by blast
qed

lemma smallPrimes_0_30:
  assumes "start s = 0" and "stop s = 30"
  shows "flags s = CALLBACK32_PRIMES \<Longrightarrow>
           smallPrimes s = s\<lparr>calls := calls s @ map (Callback32 (callback32 s)) [2, 3, 5]\<rparr>"
    and "flags s = CALLBACK32_OOP_PRIMES \<Longrightarrow>
           smallPrimes s = s\<lparr>calls := calls s @ map (\<lambda>p. Callback32_OOP (callback32_OOP s) p (cbObj s)) [2, 3, 5]\<rparr>"
    and "flags s = CALLBACK64_PRIMES \<Longrightarrow>
           smallPrimes s = s\<lparr>calls := calls s @ map (Callback64 (callback64 s)) [2, 3, 5]\<rparr>"
    and "flags s = CALLBACK64_OOP_PRIMES \<Longrightarrow>
           smallPrimes s = s\<lparr>calls := calls s @ map (\<lambda>p. Callback64_OOP (callback64_OOP s) p (cbObj s)) [2, 3, 5]\<rparr>"
  unfolding smallPrimes_def Let_def
  using assms
  by (simp_all add: doSmallPrime_def Let_def testFlags_def invoke_def flag_values)

lemma finderCallbacks_flags:
  "flags s = CALLBACK32_PRIMES \<Longrightarrow>
     finderCallbacks p s = s\<lparr>calls := calls s @ [Callback32 (callback32 s) (ucast p)]\<rparr>"
  "flags s = CALLBACK32_OOP_PRIMES \<Longrightarrow>
     finderCallbacks p s = s\<lparr>calls := calls s @ [Callback32_OOP (callback32_OOP s) (ucast p) (cbObj s)]\<rparr>"
  "flags s = CALLBACK64_PRIMES \<Longrightarrow>
     finderCallbacks p s = s\<lparr>calls := calls s @ [Callback64 (callback64 s) p]\<rparr>"
  "flags s = CALLBACK64_OOP_PRIMES \<Longrightarrow>
     finderCallbacks p s = s\<lparr>calls := calls s @ [Callback64_OOP (callback64_OOP s) p (cbObj s)]\<rparr>"
  by (simp_all add: finderCallbacks_def Let_def testFlags_def invoke_def flag_values)

lemma fold_finderCallbacks:
  "flags s = CALLBACK32_PRIMES \<Longrightarrow>
     fold (\<lambda>p. finderCallbacks (of_nat p)) ps s =
     s\<lparr>calls := calls s @ map (\<lambda>p. Callback32 (callback32 s) (ucast (of_nat p :: u64))) ps\<rparr>"
  "flags s = CALLBACK32_OOP_PRIMES \<Longrightarrow>
     fold (\<lambda>p. finderCallbacks (of_nat p)) ps s =
     s\<lparr>calls := calls s @
       map (\<lambda>p. Callback32_OOP (callback32_OOP s) (ucast (of_nat p :: u64)) (cbObj s)) ps\<rparr>"
  "flags s = CALLBACK64_PRIMES \<Longrightarrow>
     fold (\<lambda>p. finderCallbacks (of_nat p)) ps s =
     s\<lparr>calls := calls s @ map (\<lambda>p. Callback64 (callback64 s) (of_nat p)) ps\<rparr>"
  "flags s = CALLBACK64_OOP_PRIMES \<Longrightarrow>
     fold (\<lambda>p. finderCallbacks (of_nat p)) ps s =
     s\<lparr>calls := calls s @ map (\<lambda>p. Callback64_OOP (callback64_OOP s) (of_nat p) (cbObj s)) ps\<rparr>"
  by (induction ps arbitrary: s; simp add: finderCallbacks_flags)+

lemma finder_0_30_fold:
  assumes "start s = 0" and "stop s = 30" and "flags s AND mask 20 = 0"
  shows "finder s = fold (\<lambda>p. finderCallbacks (of_nat p)) [7, 11, 13, 17, 19, 23, 29] s"
proof -
  have lo: "max 7 (unat (start s)) = 7" and hi: "unat (stop s) = 30"
    using assms by simp_all
  have s1: "fold (finderCountInto 7 30) [0..<COUNTS_SIZE] s = s"
    by (rule fold_finderCountInto_no_count [OF assms(3)])
  have "(mask 20 :: u32) AND PRINT_PRIMES = PRINT_PRIMES"
    by (simp add: PRINT_PRIMES_def mask_eq_exp_minus_1)
  then have "flags s AND PRINT_PRIMES = (flags s AND mask 20) AND PRINT_PRIMES"
    by (simp add: and.assoc)
  then have np: "\<not> testFlags s PRINT_PRIMES"
    by (simp add: testFlags_def assms(3))
  show ?thesis
    unfolding finder_def Let_def lo hi s1 finderPrimes_7_30
    using np by (simp only: if_False)
qed

lemma finder_0_30:
  assumes "start s = 0" and "stop s = 30"
  shows "flags s = CALLBACK32_PRIMES \<Longrightarrow>
           finder s = s\<lparr>calls := calls s @ map (Callback32 (callback32 s)) [7, 11, 13, 17, 19, 23, 29]\<rparr>"
    and "flags s = CALLBACK32_OOP_PRIMES \<Longrightarrow>
           finder s = s\<lparr>calls := calls s @
             map (\<lambda>p. Callback32_OOP (callback32_OOP s) p (cbObj s)) [7, 11, 13, 17, 19, 23, 29]\<rparr>"
    and "flags s = CALLBACK64_PRIMES \<Longrightarrow>
           finder s = s\<lparr>calls := calls s @ map (Callback64 (callback64 s)) [7, 11, 13, 17, 19, 23, 29]\<rparr>"
    and "flags s = CALLBACK64_OOP_PRIMES \<Longrightarrow>
           finder s = s\<lparr>calls := calls s @
             map (\<lambda>p. Callback64_OOP (callback64_OOP s) p (cbObj s)) [7, 11, 13, 17, 19, 23, 29]\<rparr>"
proof -
  have m: "(CALLBACK32_PRIMES AND mask 20 :: u32) = 0" "(CALLBACK32_OOP_PRIMES AND mask 20 :: u32) = 0"
    "(CALLBACK64_PRIMES AND mask 20 :: u32) = 0" "(CALLBACK64_OOP_PRIMES AND mask 20 :: u32) = 0"
    by (simp_all add: flag_values mask_eq_exp_minus_1)
  {
    assume f: "flags s = CALLBACK32_PRIMES"
    then have "flags s AND mask 20 = 0" using m by simp
    then have "finder s = fold (\<lambda>p. finderCallbacks (of_nat p)) [7, 11, 13, 17, 19, 23, 29] s"
      by (rule finder_0_30_fold [OF assms])
    then show "finder s = s\<lparr>calls := calls s @ map (Callback32 (callback32 s)) [7, 11, 13, 17, 19, 23, 29]\<rparr>"
      by (simp only: fold_finderCallbacks(1) [OF f]) simp
  }
  {
    assume f: "flags s = CALLBACK32_OOP_PRIMES"
    then have "flags s AND mask 20 = 0" using m by simp
    then have "finder s = fold (\<lambda>p. finderCallbacks (of_nat p)) [7, 11, 13, 17, 19, 23, 29] s"
      by (rule finder_0_30_fold [OF assms])
    then show "finder s = s\<lparr>calls := calls s @
             map (\<lambda>p. Callback32_OOP (callback32_OOP s) p (cbObj s)) [7, 11, 13, 17, 19, 23, 29]\<rparr>"
      by (simp only: fold_finderCallbacks(2) [OF f]) simp
  }
  {
    assume f: "flags s = CALLBACK64_PRIMES"
    then have "flags s AND mask 20 = 0" using m by simp
    then have "finder s = fold (\<lambda>p. finderCallbacks (of_nat p)) [7, 11, 13, 17, 19, 23, 29] s"
      by (rule finder_0_30_fold [OF assms])
    then show "finder s = s\<lparr>calls := calls s @ map (Callback64 (callback64 s)) [7, 11, 13, 17, 19, 23, 29]\<rparr>"
      by (simp only: fold_finderCallbacks(3) [OF f]) simp
  }
  {
    assume f: "flags s = CALLBACK64_OOP_PRIMES"
    then have "flags s AND mask 20 = 0" using m by simp
    then have "finder s = fold (\<lambda>p. finderCallbacks (of_nat p)) [7, 11, 13, 17, 19, 23, 29] s"
      by (rule finder_0_30_fold [OF assms])
    then show "finder s = s\<lparr>calls := calls s @
             map (\<lambda>p. Callback64_OOP (callback64_OOP s) p (cbObj s)) [7, 11, 13, 17, 19, 23, 29]\<rparr>"
      by (simp only: fold_finderCallbacks(4) [OF f]) simp
  }
qed

lemma sieve_0_30:
  assumes "start s = 0" and "stop s = 30"
  shows "flags s = CALLBACK32_PRIMES \<Longrightarrow>
           fst (sieve s) = Inr () \<and>
           calls (snd (sieve s)) =
             calls s @ map (Callback32 (callback32 s)) [2, 3, 5, 7, 11, 13, 17, 19, 23, 29]"
    and "flags s = CALLBACK32_OOP_PRIMES \<Longrightarrow>
           fst (sieve s) = Inr () \<and>
           calls (snd (sieve s)) =
             calls s @ map (\<lambda>p. Callback32_OOP (callback32_OOP s) p (cbObj s))
               [2, 3, 5, 7, 11, 13, 17, 19, 23, 29]"
    and "flags s = CALLBACK64_PRIMES \<Longrightarrow>
           fst (sieve s) = Inr () \<and>
           calls (snd (sieve s)) =
             calls s @ map (Callback64 (callback64 s)) [2, 3, 5, 7, 11, 13, 17, 19, 23, 29]"
    and "flags s = CALLBACK64_OOP_PRIMES \<Longrightarrow>
           fst (sieve s) = Inr () \<and>
           calls (snd (sieve s)) =
             calls s @ map (\<lambda>p. Callback64_OOP (callback64_OOP s) p (cbObj s))
               [2, 3, 5, 7, 11, 13, 17, 19, 23, 29]"
proof -
  let ?r = "reset s"
  have r: "start ?r = 0" "stop ?r = 30" "flags ?r = flags s" "calls ?r = calls s"
    "callback32 ?r = callback32 s" "callback32_OOP ?r = callback32_OOP s"
    "callback64 ?r = callback64 s" "callback64_OOP ?r = callback64_OOP s" "cbObj ?r = cbObj s"
    using assms by (simp_all add: reset_def)
  have sv: "sieve s = (Inr (), finder (smallPrimes ?r))"
    using sameSettings_smallPrimes [of ?r] r(1,2)
    by (simp add: sieve_def Let_def sameSettings_def)
  {
    assume f: "flags s = CALLBACK32_PRIMES"
    let ?t = "?r\<lparr>calls := calls ?r @ map (Callback32 (callback32 ?r)) [2, 3, 5]\<rparr>"
    have sp: "smallPrimes ?r = ?t"
      by (rule smallPrimes_0_30(1) [OF r(1,2)]) (simp add: r f)
    have "finder ?t = ?t\<lparr>calls := calls ?t @ map (Callback32 (callback32 ?t)) [7, 11, 13, 17, 19, 23, 29]\<rparr>"
      by (rule finder_0_30(1)) (simp_all add: r f)
    then show "fst (sieve s) = Inr () \<and>
           calls (snd (sieve s)) =
             calls s @ map (Callback32 (callback32 s)) [2, 3, 5, 7, 11, 13, 17, 19, 23, 29]"
      by (simp add: sv sp r)
  }
  {
    assume f: "flags s = CALLBACK32_OOP_PRIMES"
    let ?t = "?r\<lparr>calls := calls ?r @ map (\<lambda>p. Callback32_OOP (callback32_OOP ?r) p (cbObj ?r)) [2, 3, 5]\<rparr>"
    have sp: "smallPrimes ?r = ?t"
      by (rule smallPrimes_0_30(2) [OF r(1,2)]) (simp add: r f)
    have "finder ?t = ?t\<lparr>calls := calls ?t @
        map (\<lambda>p. Callback32_OOP (callback32_OOP ?t) p (cbObj ?t)) [7, 11, 13, 17, 19, 23, 29]\<rparr>"
      by (rule finder_0_30(2)) (simp_all add: r f)
    then show "fst (sieve s) = Inr () \<and>
           calls (snd (sieve s)) =
             calls s @ map (\<lambda>p. Callback32_OOP (callback32_OOP s) p (cbObj s))
               [2, 3, 5, 7, 11, 13, 17, 19, 23, 29]"
      by (simp add: sv sp r)
  }
  {
    assume f: "flags s = CALLBACK64_PRIMES"
    let ?t = "?r\<lparr>calls := calls ?r @ map (Callback64 (callback64 ?r)) [2, 3, 5]\<rparr>"
    have sp: "smallPrimes ?r = ?t"
      by (rule smallPrimes_0_30(3) [OF r(1,2)]) (simp add: r f)
    have "finder ?t = ?t\<lparr>calls := calls ?t @ map (Callback64 (callback64 ?t)) [7, 11, 13, 17, 19, 23, 29]\<rparr>"
      by (rule finder_0_30(3)) (simp_all add: r f)
    then show "fst (sieve s) = Inr () \<and>
           calls (snd (sieve s)) =
             calls s @ map (Callback64 (callback64 s)) [2, 3, 5, 7, 11, 13, 17, 19, 23, 29]"
      by (simp add: sv sp r)
  }
  {
    assume f: "flags s = CALLBACK64_OOP_PRIMES"
    let ?t = "?r\<lparr>calls := calls ?r @ map (\<lambda>p. Callback64_OOP (callback64_OOP ?r) p (cbObj ?r)) [2, 3, 5]\<rparr>"
    have sp: "smallPrimes ?r = ?t"
      by (rule smallPrimes_0_30(4) [OF r(1,2)]) (simp add: r f)
    have "finder ?t = ?t\<lparr>calls := calls ?t @
        map (\<lambda>p. Callback64_OOP (callback64_OOP ?t) p (cbObj ?t)) [7, 11, 13, 17, 19, 23, 29]\<rparr>"
      by (rule finder_0_30(4)) (simp_all add: r f)
    then show "fst (sieve s) = Inr () \<and>
           calls (snd (sieve s)) =
             calls s @ map (\<lambda>p. Callback64_OOP (callback64_OOP s) p (cbObj s))
               [2, 3, 5, 7, 11, 13, 17, 19, 23, 29]"
      by (simp add: sv sp r)
  }
qed

lemma sieve2_0_30: "sieve2 s 0 30 = sieve (s\<lparr>start := 0, stop := 30\<rparr>)"
  by (simp add: sieve2_cases maxStop_value)

text \<open>
  C5: \<open>generatePrimes(0, 30, f)\<close> with a non-null callback \<open>f\<close> returns normally and
  invokes \<open>f\<close> exactly ten times, with the values 2, 3, 5, 7, 11, 13, 17, 19, 23, 29 in
  that order (the invocations are appended to those made before the call, and no other
  callback is invoked).  The same holds for each of the four variants; the OOP variants
  pass the context \<open>obj\<close>.
\<close>

theorem generatePrimes_0_30_callbacks:
  assumes "f \<noteq> NULL" and "obj \<noteq> NULL"
  shows
   "fst (generatePrimes32 s 0 30 f) = Inr () \<and>
    calls (snd (generatePrimes32 s 0 30 f)) =
      calls s @ map (Callback32 f) [2, 3, 5, 7, 11, 13, 17, 19, 23, 29] \<and>
    fst (generatePrimes32_OOP s 0 30 f obj) = Inr () \<and>
    calls (snd (generatePrimes32_OOP s 0 30 f obj)) =
      calls s @ map (\<lambda>p. Callback32_OOP f p obj) [2, 3, 5, 7, 11, 13, 17, 19, 23, 29] \<and>
    fst (generatePrimes64 s 0 30 f) = Inr () \<and>
    calls (snd (generatePrimes64 s 0 30 f)) =
      calls s @ map (Callback64 f) [2, 3, 5, 7, 11, 13, 17, 19, 23, 29] \<and>
    fst (generatePrimes64_OOP s 0 30 f obj) = Inr () \<and>
    calls (snd (generatePrimes64_OOP s 0 30 f obj)) =
      calls s @ map (\<lambda>p. Callback64_OOP f p obj) [2, 3, 5, 7, 11, 13, 17, 19, 23, 29]"
proof -
  let ?s1 = "s\<lparr>callback32 := f, flags := CALLBACK32_PRIMES, preSieveLimit := 13, start := 0, stop := 30\<rparr>"
  let ?s2 = "s\<lparr>callback32_OOP := f, cbObj := obj, flags := CALLBACK32_OOP_PRIMES,
               preSieveLimit := 13, start := 0, stop := 30\<rparr>"
  let ?s3 = "s\<lparr>callback64 := f, flags := CALLBACK64_PRIMES, preSieveLimit := 13, start := 0, stop := 30\<rparr>"
  let ?s4 = "s\<lparr>callback64_OOP := f, cbObj := obj, flags := CALLBACK64_OOP_PRIMES,
               preSieveLimit := 13, start := 0, stop := 30\<rparr>"
  have g1: "generatePrimes32 s 0 30 f = sieve ?s1"
    using assms by (simp add: generatePrimes32_def Let_def setPreSieveLimit_13 sieve2_0_30)
  have g2: "generatePrimes32_OOP s 0 30 f obj = sieve ?s2"
    using assms by (simp add: generatePrimes32_OOP_def Let_def setPreSieveLimit_13 sieve2_0_30)
  have g3: "generatePrimes64 s 0 30 f = sieve ?s3"
    using assms by (simp add: generatePrimes64_def Let_def setPreSieveLimit_13 sieve2_0_30)
  have g4: "generatePrimes64_OOP s 0 30 f obj = sieve ?s4"
    using assms by (simp add: generatePrimes64_OOP_def Let_def setPreSieveLimit_13 sieve2_0_30)
  have 1: "fst (sieve ?s1) = Inr () \<and> calls (snd (sieve ?s1)) =
      calls ?s1 @ map (Callback32 (callback32 ?s1)) [2, 3, 5, 7, 11, 13, 17, 19, 23, 29]"
    by (rule sieve_0_30(1)) simp_all
  have 2: "fst (sieve ?s2) = Inr () \<and> calls (snd (sieve ?s2)) =
      calls ?s2 @ map (\<lambda>p. Callback32_OOP (callback32_OOP ?s2) p (cbObj ?s2))
        [2, 3, 5, 7, 11, 13, 17, 19, 23, 29]"
    by (rule sieve_0_30(2)) simp_all
  have 3: "fst (sieve ?s3) = Inr () \<and> calls (snd (sieve ?s3)) =
      calls ?s3 @ map (Callback64 (callback64 ?s3)) [2, 3, 5, 7, 11, 13, 17, 19, 23, 29]"
    by (rule sieve_0_30(3)) simp_all
  have 4: "fst (sieve ?s4) = Inr () \<and> calls (snd (sieve ?s4)) =
      calls ?s4 @ map (\<lambda>p. Callback64_OOP (callback64_OOP ?s4) p (cbObj ?s4))
        [2, 3, 5, 7, 11, 13, 17, 19, 23, 29]"
    by (rule sieve_0_30(4)) simp_all
  from 1 2 3 4 show ?thesis
    unfolding g1 g2 g3 g4 by simp
qed

theorem generatePrimes_0_30_callbacks_witness:
  "(1::nat) \<noteq> NULL \<and> (2::nat) \<noteq> NULL \<and>
   fst (generatePrimes32 newPrimeSieve 0 30 1) = Inr () \<and>
   calls (snd (generatePrimes32 newPrimeSieve 0 30 1)) =
     [Callback32 1 2, Callback32 1 3, Callback32 1 5, Callback32 1 7, Callback32 1 11,
      Callback32 1 13, Callback32 1 17, Callback32 1 19, Callback32 1 23, Callback32 1 29] \<and>
   calls (snd (generatePrimes64_OOP newPrimeSieve 0 30 1 2)) =
     [Callback64_OOP 1 2 2, Callback64_OOP 1 3 2, Callback64_OOP 1 5 2, Callback64_OOP 1 7 2,
      Callback64_OOP 1 11 2, Callback64_OOP 1 13 2, Callback64_OOP 1 17 2,
      Callback64_OOP 1 19 2, Callback64_OOP 1 23 2, Callback64_OOP 1 29 2]"
proof -
  have c: "calls newPrimeSieve = []"
    by (simp add: newPrimeSieve_def reset_def setPreSieveLimit_def setSieveSize_def)
  show ?thesis
    using generatePrimes_0_30_callbacks [where f = 1 and obj = 2 and s = newPrimeSieve]
    by (simp add: NULL_def c)
qed

subsection \<open>The counts after sieve()\<close>

lemma length_counts_doSmallPrime:
  "length (counts (doSmallPrime mn mx ty str s)) = length (counts s)"
  by (simp add: doSmallPrime_def Let_def invoke_def testFlags_def)

lemma counts_doSmallPrime:
  assumes "k < length (counts s)"
  shows "counts (doSmallPrime mn mx ty str s) ! k =
         counts s ! k +
         of_bool (unat ty = k \<and> start s \<le> ucast mn \<and> ucast mx \<le> stop s \<and>
                  \<not> (testFlags s CALLBACK_FLAGS \<and> ty = 0) \<and>
                  testFlags s (push_bit (unat ty) COUNT_PRIMES))"
proof -
  have "counts (doSmallPrime mn mx ty str s) =
        (if start s \<le> ucast mn \<and> ucast mx \<le> stop s \<and>
            \<not> (testFlags s CALLBACK_FLAGS \<and> ty = 0) \<and>
            testFlags s (push_bit (unat ty) COUNT_PRIMES)
         then (counts s)[unat ty := counts s ! unat ty + 1] else counts s)"
    by (auto simp: doSmallPrime_def Let_def invoke_def testFlags_def)
  then show ?thesis
    using assms by (auto simp: nth_list_update)
qed

lemma length_counts_finderCountInto:
  "length (counts (finderCountInto lo hi ty s)) = length (counts s)"
  by (simp add: finderCountInto_def)

lemma counts_finderCountInto:
  assumes "k < length (counts s)"
  shows "counts (finderCountInto lo hi ty s) ! k =
         counts s ! k +
         (if ty = k \<and> testFlags s (push_bit ty COUNT_PRIMES)
          then of_nat (finderCount ty lo hi) else 0)"
  using assms
  by (cases "ty = k") (auto simp: finderCountInto_def nth_list_update)

lemma testFlags_finderCountInto: "testFlags (finderCountInto lo hi ty s) f = testFlags s f"
  by (simp add: finderCountInto_def testFlags_def)

lemma length_counts_fold_finderCountInto:
  "length (counts (fold (finderCountInto lo hi) xs s)) = length (counts s)"
  by (induction xs arbitrary: s) (simp_all add: length_counts_finderCountInto)

lemma testFlags_fold_finderCountInto:
  "testFlags (fold (finderCountInto lo hi) xs s) f = testFlags s f"
  by (induction xs arbitrary: s) (simp_all add: testFlags_finderCountInto)

lemma counts_fold_finderCountInto:
  assumes "k < length (counts s)" and "distinct xs"
  shows "counts (fold (finderCountInto lo hi) xs s) ! k =
         counts s ! k +
         (if k \<in> set xs \<and> testFlags s (push_bit k COUNT_PRIMES)
          then of_nat (finderCount k lo hi) else 0)"
  using assms
proof (induction xs arbitrary: s)
  case Nil
  then show ?case by simp
next
  case (Cons x xs)
  have len: "k < length (counts (finderCountInto lo hi x s))"
    using Cons.prems(1) by (simp add: length_counts_finderCountInto)
  have d: "distinct xs" and nx: "x \<notin> set xs"
    using Cons.prems(2) by simp_all
  show ?case
    using nx
    by (auto simp: Cons.IH [OF len d] counts_finderCountInto [OF Cons.prems(1)]
        testFlags_finderCountInto)
qed

lemma counts_finderCallbacks: "counts (finderCallbacks p s) = counts s"
  by (simp add: finderCallbacks_def Let_def invoke_def testFlags_def)

lemma counts_fold_finderCallbacks:
  "counts (fold (\<lambda>p. finderCallbacks (of_nat p)) ps s) = counts s"
  by (induction ps arbitrary: s) (simp_all add: counts_finderCallbacks)

lemma counts_finder:
  assumes "k < length (counts s)" and "k < COUNTS_SIZE"
  shows "counts (finder s) ! k =
         counts s ! k +
         (if testFlags s (push_bit k COUNT_PRIMES)
          then of_nat (finderCount k (max 7 (unat (start s))) (unat (stop s))) else 0)"
proof -
  let ?lo = "max 7 (unat (start s))" and ?hi = "unat (stop s)"
  let ?s1 = "fold (finderCountInto ?lo ?hi) [0..<COUNTS_SIZE] s"
  have "counts (finder s) = counts ?s1"
    unfolding finder_def Let_def
    by (simp add: counts_fold_finderCallbacks)
  moreover have "counts ?s1 ! k = counts s ! k +
         (if k \<in> set [0..<COUNTS_SIZE] \<and> testFlags s (push_bit k COUNT_PRIMES)
          then of_nat (finderCount k ?lo ?hi) else 0)"
    by (rule counts_fold_finderCountInto [OF assms(1)]) simp
  ultimately show ?thesis using assms(2) by simp
qed

lemma counts_doSmallPrime_hit:
  "k < length (counts s) \<Longrightarrow>
   counts (doSmallPrime mn mx ty str s) ! k = counts s ! k + smallHit s k mn mx ty"
  by (simp only: counts_doSmallPrime smallHit_def)

lemma smallHit_sameSettings: "sameSettings s s' \<Longrightarrow> smallHit s' k mn mx ty = smallHit s k mn mx ty"
  by (auto simp: smallHit_def sameSettings_def testFlags_def)

lemma smallHit_doSmallPrime:
  "smallHit (doSmallPrime mn' mx' ty' str s) k mn mx ty = smallHit s k mn mx ty"
  by (rule smallHit_sameSettings [OF sameSettings_doSmallPrime])

lemma counts_smallPrimes:
  assumes "k < length (counts s)"
  shows "counts (smallPrimes s) ! k = counts s ! k + smallHits s k"
  unfolding smallPrimes_def Let_def smallHits_def
  using assms
  by (simp add: counts_doSmallPrime_hit length_counts_doSmallPrime smallHit_doSmallPrime
      add.assoc)

lemma length_counts_smallPrimes: "length (counts (smallPrimes s)) = length (counts s)"
  unfolding smallPrimes_def Let_def
  by (simp add: length_counts_doSmallPrime)

lemma unat_ucast_u32: "unat (ucast (w :: u32) :: u64) = unat w"
proof -
  have "unat w < 2 ^ 32"
    using unsigned_less [of w] by simp
  then have "unat w < 2 ^ 64"
    by simp
  then have "take_bit 64 (unat w) = unat w"
    by (simp only: take_bit_nat_eq_self)
  then show ?thesis
    by (simp add: unsigned_ucast_eq)
qed

lemma smallHit_start_above_5:
  assumes "\<not> start s \<le> 5" and "mn \<le> 5"
  shows "smallHit s k mn mx ty = 0"
proof -
  have "(ucast mn :: u64) \<le> 5"
    using assms(2) by (simp add: word_le_nat_alt unat_ucast_u32)
  with assms(1) have "\<not> start s \<le> ucast mn" by simp
  then show ?thesis by (simp add: smallHit_def)
qed

lemma smallHits_start_above_5: "\<not> start s \<le> 5 \<Longrightarrow> smallHits s k = 0"
  by (simp add: smallHits_def smallHit_start_above_5)

lemma smallHits_reset: "smallHits (reset s) k = smallHits s k"
  by (simp add: smallHits_def smallHit_sameSettings [OF sameSettings_reset])

text \<open>The value of counts[k] after a \<open>sieve()\<close> that does not raise.\<close>

lemma counts_sieve:
  assumes "\<not> stop s < start s" and "k < 7"
  shows "counts (snd (sieve s)) ! k =
         smallHits s k +
         (if 7 \<le> stop s \<and> testFlags s (push_bit k COUNT_PRIMES)
          then of_nat (finderCount k (max 7 (unat (start s))) (unat (stop s))) else 0)"
proof -
  let ?r = "reset s"
  let ?s1 = "if start ?r \<le> 5 then smallPrimes ?r else ?r"
  let ?s2 = "if stop ?s1 \<ge> 7 then finder ?s1 else ?s1"
  have r: "start ?r = start s" "stop ?r = stop s" "counts ?r = replicate 7 0"
    "\<And>f. testFlags ?r f = testFlags s f"
    by (simp_all add: reset_def COUNTS_SIZE_def testFlags_def)
  have ss: "sameSettings ?r ?s1"
    by (simp add: sameSettings_smallPrimes sameSettings_refl)
  have s1: "start ?s1 = start s" "stop ?s1 = stop s" "\<And>f. testFlags ?s1 f = testFlags s f"
    using ss r(1,2,4) sameSettings_testFlags [OF ss] by (simp_all add: sameSettings_def)
  have len1: "length (counts ?s1) = 7"
    by (simp add: length_counts_smallPrimes r(3))
  have c1: "counts ?s1 ! k = smallHits s k"
  proof (cases "start ?r \<le> 5")
    case True
    then show ?thesis
      using assms(2) by (simp add: counts_smallPrimes r(3) smallHits_reset)
  next
    case False
    then show ?thesis
      using assms(2) smallHits_start_above_5 [of s k] by (simp add: r)
  qed
  have sv: "snd (sieve s) = ?s2"
    using assms(1) by (simp add: sieve_def Let_def r)
  have fin: "counts (finder ?s1) ! k =
         counts ?s1 ! k +
         (if testFlags ?s1 (push_bit k COUNT_PRIMES)
          then of_nat (finderCount k (max 7 (unat (start ?s1))) (unat (stop ?s1))) else 0)"
    by (rule counts_finder) (simp_all add: len1 assms(2) COUNTS_SIZE_def)
  show ?thesis
  proof (cases "7 \<le> stop s")
    case True
    then have "?s2 = finder ?s1" by (simp only: s1(2) if_True)
    then show ?thesis
      unfolding sv using fin True by (simp only: c1 s1 if_True simp_thms)
  next
    case False
    then have "?s2 = ?s1" by (simp only: s1(2) if_False)
    then show ?thesis
      unfolding sv using False by (simp only: c1 if_False simp_thms add_0_right)
  qed
qed

subsection \<open>The count of k-tuplets over an interval\<close>

lemma smallHits_single_flag:
  assumes "flags s = push_bit k COUNT_PRIMES" and "k < 7"
  shows "smallHits s k = of_nat (smallCount k (unat (start s)) (unat (stop s)))"
  using below_7_cases [OF assms(2)] assms(1)
  by (elim disjE)
     (simp_all add: smallHits_def smallHit_def smallCount_def smallTable_def testFlags_def
       flag_values word_le_nat_alt)

lemma testFlags_single_flag:
  assumes "flags s = push_bit k COUNT_PRIMES" and "k < 7"
  shows "testFlags s (push_bit k COUNT_PRIMES)"
  using below_7_cases [OF assms(2)] assms(1)
  by (elim disjE) (simp_all add: testFlags_def flag_values)

lemma count_flag_public:
  assumes "k < 7"
  shows "\<not> (push_bit k COUNT_PRIMES :: u32) \<ge> push_bit 20 1"
  using below_7_cases [OF assms]
  by (elim disjE) (simp_all add: flag_values word_le_nat_alt)

lemma unat_of_nat_below_7: "k < 7 \<Longrightarrow> unat (of_nat k :: u32) = k"
  by (simp add: unat_of_nat)

lemma countTuplets_value:
  assumes "a \<le> b" and "b < maxStop" and "k < 7"
  shows "fst (countTuplets s (of_nat k) a b) = Inr (of_nat (intervalCount k (unat a) (unat b)))"
proof -
  let ?s1 = "s\<lparr>flags := push_bit k COUNT_PRIMES\<rparr>"
  let ?s2 = "?s1\<lparr>start := a, stop := b\<rparr>"
  have am: "a < maxStop" using assms(1,2) by simp
  have sf: "setFlags s (push_bit (unat (of_nat k :: u32)) COUNT_PRIMES) = (Inr (), ?s1)"
    using count_flag_public [OF assms(3)]
    by (simp add: setFlags_def unat_of_nat_below_7 [OF assms(3)])
  have na: "\<not> maxStop \<le> a" and nb: "\<not> maxStop \<le> b"
    using am assms(2) by (simp_all only: not_le)
  have s2: "sieve2 ?s1 a b = sieve ?s2"
    by (simp add: sieve2_cases na nb)
  have ok: "fst (sieve ?s2) = Inr ()"
    using assms(1) by (simp add: fst_sieve not_less)
  have fl: "flags ?s2 = push_bit k COUNT_PRIMES" by simp
  have c: "counts (snd (sieve ?s2)) ! k =
         smallHits ?s2 k +
         (if 7 \<le> stop ?s2 \<and> testFlags ?s2 (push_bit k COUNT_PRIMES)
          then of_nat (finderCount k (max 7 (unat (start ?s2))) (unat (stop ?s2))) else 0)"
    by (rule counts_sieve) (use assms in \<open>simp_all add: not_less\<close>)
  have b7: "(7 \<le> b) = (7 \<le> unat b)"
    by (simp add: word_le_nat_alt)
  have "counts (snd (sieve ?s2)) ! k = of_nat (intervalCount k (unat a) (unat b))"
    unfolding c smallHits_single_flag [OF fl assms(3)]
    using testFlags_single_flag [OF fl assms(3)]
    by (simp add: intervalCount_def b7)
  moreover have "countTuplets s (of_nat k) a b =
      (getCounts (snd (sieve ?s2)) (of_nat k), snd (sieve ?s2))"
    using ok by (cases "sieve ?s2") (simp add: countTuplets_def sf andThen_def s2)
  ultimately show ?thesis
    using assms(3)
    by (simp add: getCounts_def COUNTS_SIZE_def unat_of_nat_below_7 [OF assms(3)])
qed

subsection \<open>The bytes of the sieve\<close>

lemma bit_sieveByte: "bit (sieveByte lo hi b) r \<longleftrightarrow> r < 8 \<and> sieveBit lo hi b r"
  by (auto simp: sieveByte_def bit_horner_sum_bit_word_iff)

lemma bitNumber_bounds:
  assumes "r < 8"
  shows "30 * b + 7 \<le> bitNumber b r" and "bitNumber b r \<le> 30 * b + 31"
proof -
  have "r = 0 \<or> r = 1 \<or> r = 2 \<or> r = 3 \<or> r = 4 \<or> r = 5 \<or> r = 6 \<or> r = 7"
    using assms by arith
  then have "7 \<le> bitValues ! r \<and> bitValues ! r \<le> 31"
    by (elim disjE) (simp_all add: bitValues_def)
  then show "30 * b + 7 \<le> bitNumber b r" and "bitNumber b r \<le> 30 * b + 31"
    by (simp_all add: bitNumber_def NUMBERS_PER_BYTE_def)
qed

lemma sieveByte_eq_0I:
  assumes "\<And>r. r < 8 \<Longrightarrow> \<not> sieveBit lo hi b r"
  shows "sieveByte lo hi b = 0"
  by (rule bit_eqI) (simp add: bit_sieveByte assms)

lemma sieveByte_below:
  assumes "7 \<le> lo" and "b < byteIndex lo"
  shows "sieveByte lo hi b = 0"
proof (rule sieveByte_eq_0I)
  fix r :: nat
  assume r: "r < 8"
  have "30 * Suc b \<le> 30 * ((lo - 7) div 30)"
    using assms(2) by (simp add: byteIndex_def NUMBERS_PER_BYTE_def)
  also have "\<dots> \<le> lo - 7" by simp
  finally have "30 * b + 31 < lo" using assms(1) by simp
  then have "bitNumber b r < lo"
    using bitNumber_bounds(2) [OF r, of b] by simp
  then show "\<not> sieveBit lo hi b r"
    by (simp add: sieveBit_def)
qed

lemma sieveByte_above:
  assumes "byteIndex hi < b"
  shows "sieveByte lo hi b = 0"
proof (rule sieveByte_eq_0I)
  fix r :: nat
  assume r: "r < 8"
  have "hi - 7 < 30 * Suc ((hi - 7) div 30)"
    using dividend_less_times_div [of 30 "hi - 7"] by simp
  also have "\<dots> \<le> 30 * b"
    using assms by (simp add: byteIndex_def NUMBERS_PER_BYTE_def)
  finally have "hi < 30 * b + 7" by simp
  then have "hi < bitNumber b r"
    using bitNumber_bounds(1) [OF r, of b] by simp
  then show "\<not> sieveBit lo hi b r"
    by (simp add: sieveBit_def)
qed

lemma sieveByte_stop_below_7:
  assumes "hi < 7"
  shows "sieveByte lo hi b = 0"
proof (rule sieveByte_eq_0I)
  fix r :: nat
  assume r: "r < 8"
  have "hi < bitNumber b r"
    using bitNumber_bounds(1) [OF r, of b] assms by simp
  then show "\<not> sieveBit lo hi b r"
    by (simp add: sieveBit_def)
qed

lemma sieveByte_max_7: "sieveByte (max 7 a) hi b = sieveByte a hi b"
proof (rule bit_eqI)
  fix r :: nat
  have "r < 8 \<Longrightarrow> 7 \<le> bitNumber b r"
    using bitNumber_bounds(1) [of r b] by simp
  then show "bit (sieveByte (max 7 a) hi b) r \<longleftrightarrow> bit (sieveByte a hi b) r"
    by (auto simp: bit_sieveByte sieveBit_def)
qed

lemma kBitmasks_nonzero: "m \<in> set (kBitmasks ty) \<Longrightarrow> m \<noteq> 0"
  by (auto simp: kBitmasks_def split: if_splits)

lemma countByte_0: "countByte ty 0 = 0"
proof -
  have "filter (\<lambda>m. (0 :: 8 word) AND m = m) (kBitmasks ty) = []"
    using kBitmasks_nonzero [of _ ty] by (auto simp: filter_empty_conv)
  then show ?thesis
    by (simp add: countByte_def popcount_def tupletMatches_def)
qed

lemma countByte_le_8: "countByte ty w \<le> 8"
proof -
  have "length (filter (bit w) [0..<8]) \<le> length [0..<8]"
    by (rule length_filter_le)
  then have p: "popcount w \<le> 8"
    by (simp add: popcount_def)
  have "length (filter (\<lambda>m. w AND m = m) (kBitmasks ty)) \<le> length (kBitmasks ty)"
    by (rule length_filter_le)
  also have "\<dots> \<le> 8"
    by (simp add: kBitmasks_def)
  finally have "tupletMatches ty w \<le> 8"
    by (simp add: tupletMatches_def)
  with p show ?thesis
    by (simp add: countByte_def)
qed

text \<open>
  What the finder adds, as a sum over all bytes up to any index past the last one: the
  bytes outside the range are empty.
\<close>

lemma finderCount_as_sum:
  assumes "7 \<le> lo" and "byteIndex hi < N"
  shows "finderCount ty lo hi = (\<Sum>i = 0..<N. countByte ty (sieveByte lo hi i))"
proof -
  let ?g = "\<lambda>i. countByte ty (sieveByte lo hi i)"
  let ?S = "{byteIndex lo..<Suc (byteIndex hi)}"
  have "finderCount ty lo hi = sum ?g ?S"
    by (simp add: finderCount_def byteRange_def interv_sum_list_conv_sum_set_nat)
  also have "\<dots> = sum ?g {0..<N}"
  proof (rule sum.mono_neutral_left)
    show "finite {0..<N}" by simp
    show "?S \<subseteq> {0..<N}" using assms(2) by auto
    show "\<forall>i\<in>{0..<N} - ?S. ?g i = 0"
    proof
      fix i assume "i \<in> {0..<N} - ?S"
      then have "i < byteIndex lo \<or> byteIndex hi < i" by auto
      then have "sieveByte lo hi i = 0"
        using sieveByte_below [OF assms(1)] sieveByte_above by blast
      then show "?g i = 0" by (simp add: countByte_0)
    qed
  qed
  finally show ?thesis .
qed

lemma finder_part_as_sum:
  assumes "byteIndex b < N"
  shows "(if 7 \<le> b then finderCount ty (max 7 a) b else 0) =
         (\<Sum>i = 0..<N. countByte ty (sieveByte a b i))"
proof (cases "7 \<le> b")
  case True
  have "finderCount ty (max 7 a) b = (\<Sum>i = 0..<N. countByte ty (sieveByte (max 7 a) b i))"
    by (rule finderCount_as_sum) (simp_all add: assms)
  with True show ?thesis by (simp add: sieveByte_max_7)
next
  case False
  then have "sieveByte a b i = 0" for i
    by (simp add: sieveByte_stop_below_7)
  with False show ?thesis by (simp add: countByte_0)
qed

subsection \<open>Splitting an interval\<close>

lemma length_filter_split:
  assumes "\<And>x. x \<in> set xs \<Longrightarrow> R x \<longleftrightarrow> P x \<or> Q x"
    and "\<And>x. x \<in> set xs \<Longrightarrow> \<not> (P x \<and> Q x)"
  shows "length (filter P xs) + length (filter Q xs) = length (filter R xs)"
  using assms
proof (induction xs)
  case Nil
  show ?case by simp
next
  case (Cons x xs)
  have "length (filter P xs) + length (filter Q xs) = length (filter R xs)"
    by (rule Cons.IH) (simp_all add: Cons.prems)
  moreover have "R x \<longleftrightarrow> P x \<or> Q x" and "\<not> (P x \<and> Q x)"
    by (simp_all add: Cons.prems)
  ultimately show ?case by auto
qed

lemma length_filter_split_le:
  assumes "\<And>x. x \<in> set xs \<Longrightarrow> P x \<Longrightarrow> R x"
    and "\<And>x. x \<in> set xs \<Longrightarrow> Q x \<Longrightarrow> R x"
    and "\<And>x. x \<in> set xs \<Longrightarrow> \<not> (P x \<and> Q x)"
  shows "length (filter P xs) + length (filter Q xs) \<le> length (filter R xs)"
  using assms
proof (induction xs)
  case Nil
  show ?case by simp
next
  case (Cons x xs)
  have "length (filter P xs) + length (filter Q xs) \<le> length (filter R xs)"
    by (rule Cons.IH) (simp_all add: Cons.prems)
  moreover have "P x \<Longrightarrow> R x" and "Q x \<Longrightarrow> R x" and "\<not> (P x \<and> Q x)"
    by (simp_all add: Cons.prems)
  ultimately show ?case by auto
qed

lemma sieveBit_split:
  assumes "a \<le> Suc c" and "c \<le> b"
  shows "sieveBit a b i r \<longleftrightarrow> sieveBit a c i r \<or> sieveBit (Suc c) b i r"
    and "\<not> (sieveBit a c i r \<and> sieveBit (Suc c) b i r)"
  using assms by (auto simp: sieveBit_def)

lemma popcount_sieveByte: "popcount (sieveByte lo hi i) = length (filter (sieveBit lo hi i) [0..<8])"
proof -
  have "filter (bit (sieveByte lo hi i)) [0..<8] = filter (sieveBit lo hi i) [0..<8]"
    by (rule filter_cong) (simp_all add: bit_sieveByte)
  then show ?thesis by (simp add: popcount_def)
qed

lemma popcount_split:
  assumes "a \<le> Suc c" and "c \<le> b"
  shows "popcount (sieveByte a c i) + popcount (sieveByte (Suc c) b i) = popcount (sieveByte a b i)"
  unfolding popcount_sieveByte
  by (rule length_filter_split) (simp_all add: sieveBit_split [OF assms])

lemma sieveByte_parts:
  assumes "a \<le> Suc c" and "c \<le> b"
  shows "sieveByte a c i AND sieveByte (Suc c) b i = 0"
    and "sieveByte a b i AND sieveByte a c i = sieveByte a c i"
    and "sieveByte a b i AND sieveByte (Suc c) b i = sieveByte (Suc c) b i"
  by (rule bit_eqI; use sieveBit_split [OF assms] in \<open>auto simp: bit_and_iff bit_sieveByte\<close>)+

lemma tupletMatches_split:
  assumes "a \<le> Suc c" and "c \<le> b"
  shows "tupletMatches ty (sieveByte a c i) + tupletMatches ty (sieveByte (Suc c) b i)
         \<le> tupletMatches ty (sieveByte a b i)"
  unfolding tupletMatches_def
proof (rule length_filter_split_le)
  fix m :: "8 word"
  assume m: "m \<in> set (kBitmasks ty)"
  note p = sieveByte_parts [OF assms, of i]
  show "sieveByte a b i AND m = m" if h: "sieveByte a c i AND m = m"
  proof -
    have "sieveByte a b i AND m = sieveByte a b i AND (sieveByte a c i AND m)"
      by (simp only: h)
    also have "\<dots> = (sieveByte a b i AND sieveByte a c i) AND m"
      by (simp only: and.assoc)
    also have "\<dots> = m"
      by (simp only: p(2) h)
    finally show ?thesis .
  qed
  show "sieveByte a b i AND m = m" if h: "sieveByte (Suc c) b i AND m = m"
  proof -
    have "sieveByte a b i AND m = sieveByte a b i AND (sieveByte (Suc c) b i AND m)"
      by (simp only: h)
    also have "\<dots> = (sieveByte a b i AND sieveByte (Suc c) b i) AND m"
      by (simp only: and.assoc)
    also have "\<dots> = m"
      by (simp only: p(3) h)
    finally show ?thesis .
  qed
  show "\<not> (sieveByte a c i AND m = m \<and> sieveByte (Suc c) b i AND m = m)"
  proof
    assume h: "sieveByte a c i AND m = m \<and> sieveByte (Suc c) b i AND m = m"
    then have "m = sieveByte a c i AND (sieveByte (Suc c) b i AND m)"
      by simp
    also have "\<dots> = (sieveByte a c i AND sieveByte (Suc c) b i) AND m"
      by (simp only: and.assoc)
    also have "\<dots> = 0"
      by (simp only: p(1)) simp
    finally show False
      using kBitmasks_nonzero [OF m] by simp
  qed
qed

lemma countByte_split:
  assumes "a \<le> Suc c" and "c \<le> b"
  shows "countByte ty (sieveByte a c i) + countByte ty (sieveByte (Suc c) b i)
         \<le> countByte ty (sieveByte a b i)"
    and "countByte 0 (sieveByte a c i) + countByte 0 (sieveByte (Suc c) b i)
         = countByte 0 (sieveByte a b i)"
  using popcount_split [OF assms, of i] tupletMatches_split [OF assms, of ty i]
  by (simp_all add: countByte_def)

lemma smallTable_ordered: "(mn, mx, ty) \<in> set smallTable \<Longrightarrow> mn \<le> mx \<and> (ty = 0 \<longrightarrow> mn = mx)"
  by (auto simp: smallTable_def)

lemma smallCount_split:
  assumes "a \<le> Suc c" and "c \<le> b"
  shows "smallCount k a c + smallCount k (Suc c) b \<le> smallCount k a b"
    and "smallCount 0 a c + smallCount 0 (Suc c) b = smallCount 0 a b"
proof -
  show "smallCount k a c + smallCount k (Suc c) b \<le> smallCount k a b"
    unfolding smallCount_def
    by (rule length_filter_split_le) (use assms smallTable_ordered in \<open>fastforce+\<close>)
  show "smallCount 0 a c + smallCount 0 (Suc c) b = smallCount 0 a b"
    unfolding smallCount_def
    by (rule length_filter_split) (use assms smallTable_ordered in \<open>fastforce+\<close>)
qed

lemma byteIndex_mono: "c \<le> b \<Longrightarrow> byteIndex c \<le> byteIndex b"
  by (simp add: byteIndex_def div_le_mono)

lemma intervalCount_split:
  assumes "a \<le> Suc c" and "c \<le> b"
  shows "intervalCount k a c + intervalCount k (Suc c) b \<le> intervalCount k a b"
    and "intervalCount 0 a c + intervalCount 0 (Suc c) b = intervalCount 0 a b"
proof -
  let ?N = "Suc (byteIndex b)"
  have nb: "byteIndex b < ?N" and nc: "byteIndex c < ?N"
    using byteIndex_mono [OF assms(2)] by simp_all
  note f = finder_part_as_sum [OF nb] finder_part_as_sum [OF nc]
  have "(\<Sum>i = 0..<?N. countByte k (sieveByte a c i)) + (\<Sum>i = 0..<?N. countByte k (sieveByte (Suc c) b i))
        = (\<Sum>i = 0..<?N. countByte k (sieveByte a c i) + countByte k (sieveByte (Suc c) b i))"
    by (simp only: sum.distrib)
  also have "\<dots> \<le> (\<Sum>i = 0..<?N. countByte k (sieveByte a b i))"
    by (rule sum_mono) (rule countByte_split(1) [OF assms])
  finally show "intervalCount k a c + intervalCount k (Suc c) b \<le> intervalCount k a b"
    unfolding intervalCount_def f
    using smallCount_split(1) [OF assms, of k] by simp
  have "(\<Sum>i = 0..<?N. countByte 0 (sieveByte a c i)) + (\<Sum>i = 0..<?N. countByte 0 (sieveByte (Suc c) b i))
        = (\<Sum>i = 0..<?N. countByte 0 (sieveByte a c i) + countByte 0 (sieveByte (Suc c) b i))"
    by (simp only: sum.distrib)
  also have "\<dots> = (\<Sum>i = 0..<?N. countByte 0 (sieveByte a b i))"
    by (simp only: countByte_split(2) [OF assms])
  finally show "intervalCount 0 a c + intervalCount 0 (Suc c) b = intervalCount 0 a b"
    unfolding intervalCount_def f
    using smallCount_split(2) [OF assms] by simp
qed

lemma intervalCount_bound: "intervalCount k a b \<le> 16 + b"
proof -
  have "smallCount k a b \<le> length smallTable"
    unfolding smallCount_def by (rule length_filter_le)
  then have s: "smallCount k a b \<le> 8"
    by (simp add: smallTable_def)
  have "(\<Sum>i = 0..<Suc (byteIndex b). countByte k (sieveByte a b i))
        \<le> (\<Sum>i = 0..<Suc (byteIndex b). 8)"
    by (rule sum_mono) (rule countByte_le_8)
  also have "\<dots> = 8 * Suc (byteIndex b)" by simp
  also have "\<dots> \<le> 8 + b"
    by (simp add: byteIndex_def NUMBERS_PER_BYTE_def)
  finally have "(if 7 \<le> b then finderCount k (max 7 a) b else 0) \<le> 8 + b"
    by (simp only: finder_part_as_sum [of b "Suc (byteIndex b)", OF lessI])
  with s show ?thesis
    by (simp add: intervalCount_def)
qed

lemma getPrimeCount2_countTuplets: "getPrimeCount2 s a b = countTuplets s 0 a b"
proof -
  have "(Inr (getPrimeCount t), t) = (getCounts t 0, t)" for t
    by (simp add: getPrimeCount_def getCounts_def COUNTS_SIZE_def)
  then show ?thesis
    by (simp add: getPrimeCount2_def countTuplets_def)
qed

lemma unat_intervalCount:
  assumes "b < maxStop"
  shows "unat (of_nat (intervalCount k a (unat b)) :: u64) = intervalCount k a (unat b)"
proof -
  have "unat b < 2 ^ 64 - 10 * 2 ^ 32 + 9"
    using assms by (simp add: word_less_nat_alt unat_maxStop)
  then have "intervalCount k a (unat b) < 2 ^ 64"
    using intervalCount_bound [of k a "unat b"] by simp
  then show ?thesis
    by (simp add: unat_of_nat)
qed

lemma unat_succ_below:
  fixes c b :: u64
  assumes "c < b"
  shows "unat (c + 1) = Suc (unat c)" and "c + 1 \<le> b"
proof -
  have "unat c < unat b" using assms by (simp add: word_less_nat_alt)
  moreover have "unat b < 2 ^ 64" using unsigned_less [of b] by simp
  ultimately have "unat c + unat (1 :: u64) < 2 ^ LENGTH(64)" by simp
  then have "unat (c + 1) = unat c + unat (1 :: u64)"
    by (simp only: unat_add_lem)
  then show u: "unat (c + 1) = Suc (unat c)" by simp
  show "c + 1 \<le> b"
    using \<open>unat c < unat b\<close> by (simp add: word_le_nat_alt u)
qed

subsection \<open>Tuplets that straddle the split point\<close>

lemma length_filter_split3:
  assumes "\<And>x. x \<in> set xs \<Longrightarrow> R x \<longleftrightarrow> P x \<or> Q x \<or> S x"
    and "\<And>x. x \<in> set xs \<Longrightarrow> \<not> (P x \<and> Q x) \<and> \<not> (P x \<and> S x) \<and> \<not> (Q x \<and> S x)"
  shows "length (filter P xs) + length (filter Q xs) + length (filter S xs) = length (filter R xs)"
  using assms
proof (induction xs)
  case Nil
  show ?case by simp
next
  case (Cons x xs)
  have "length (filter P xs) + length (filter Q xs) + length (filter S xs) = length (filter R xs)"
    by (rule Cons.IH) (simp_all add: Cons.prems)
  moreover have "R x \<longleftrightarrow> P x \<or> Q x \<or> S x"
    and "\<not> (P x \<and> Q x) \<and> \<not> (P x \<and> S x) \<and> \<not> (Q x \<and> S x)"
    by (simp_all add: Cons.prems)
  ultimately show ?case by auto
qed

lemma bit_byte_below_8: "bit (m :: 8 word) r \<Longrightarrow> r < 8"
  using bit_imp_le_length [of m r] by simp

lemma match_iff: "sieveByte lo hi i AND m = m \<longleftrightarrow> (\<forall>r. bit m r \<longrightarrow> sieveBit lo hi i r)"
  using bit_byte_below_8 [of m]
  by (auto simp: bit_eq_iff bit_and_iff bit_sieveByte)

lemma mask_has_bit: "(m :: 8 word) \<noteq> 0 \<Longrightarrow> \<exists>r. bit m r"
  by (auto simp: bit_eq_iff)

lemma list_ex_decodeByte: "list_ex P (decodeByte i m) \<longleftrightarrow> (\<exists>r. bit m r \<and> P (bitNumber i r))"
  using bit_byte_below_8 [of m]
  by (auto simp: decodeByte_def list_ex_iff)

lemma match_three_way:
  fixes a c b i :: nat and m :: "8 word"
  assumes "a \<le> Suc c" and "c \<le> b" and "m \<noteq> 0"
  defines "P \<equiv> sieveByte a c i AND m = m"
    and "Q \<equiv> sieveByte (Suc c) b i AND m = m"
    and "S \<equiv> sieveByte a b i AND m = m \<and> list_ex (\<lambda>n. n \<le> c) (decodeByte i m) \<and>
              list_ex (\<lambda>n. c < n) (decodeByte i m)"
  shows "sieveByte a b i AND m = m \<longleftrightarrow> P \<or> Q \<or> S"
    and "\<not> (P \<and> Q) \<and> \<not> (P \<and> S) \<and> \<not> (Q \<and> S)"
proof -
  obtain r0 where r0: "bit m r0"
    using mask_has_bit [OF assms(3)] by blast
  have p: "P \<longleftrightarrow> (\<forall>r. bit m r \<longrightarrow> isPrime (bitNumber i r) \<and> a \<le> bitNumber i r \<and> bitNumber i r \<le> c)"
    by (simp add: P_def match_iff sieveBit_def)
  have q: "Q \<longleftrightarrow> (\<forall>r. bit m r \<longrightarrow> isPrime (bitNumber i r) \<and> Suc c \<le> bitNumber i r \<and> bitNumber i r \<le> b)"
    by (simp add: Q_def match_iff sieveBit_def)
  have w: "sieveByte a b i AND m = m \<longleftrightarrow>
           (\<forall>r. bit m r \<longrightarrow> isPrime (bitNumber i r) \<and> a \<le> bitNumber i r \<and> bitNumber i r \<le> b)"
    by (simp add: match_iff sieveBit_def)
  have s: "S \<longleftrightarrow> (\<forall>r. bit m r \<longrightarrow> isPrime (bitNumber i r) \<and> a \<le> bitNumber i r \<and> bitNumber i r \<le> b) \<and>
           (\<exists>r. bit m r \<and> bitNumber i r \<le> c) \<and> (\<exists>r. bit m r \<and> c < bitNumber i r)"
    by (simp add: S_def w list_ex_decodeByte)
  show "sieveByte a b i AND m = m \<longleftrightarrow> P \<or> Q \<or> S"
  proof
    assume h: "sieveByte a b i AND m = m"
    show "P \<or> Q \<or> S"
    proof (cases "\<exists>r. bit m r \<and> c < bitNumber i r")
      case False
      then have "P" using h unfolding p w by (meson not_less)
      then show ?thesis by simp
    next
      case True
      show ?thesis
      proof (cases "\<exists>r. bit m r \<and> bitNumber i r \<le> c")
        case False
        then have "Q" using h unfolding q w by (meson not_less_eq_eq)
        then show ?thesis by simp
      next
        case c2: True
        from True c2 h have "S" unfolding s w by blast
        then show ?thesis by simp
      qed
    qed
  next
    assume "P \<or> Q \<or> S"
    then show "sieveByte a b i AND m = m"
      unfolding p q s w using assms(1,2) by (elim disjE) (fastforce+)
  qed
  have "\<not> (P \<and> Q)"
    unfolding p q using r0 by fastforce
  moreover have "\<not> (P \<and> S)"
    unfolding p s by fastforce
  moreover have "\<not> (Q \<and> S)"
    unfolding q s by fastforce
  ultimately show "\<not> (P \<and> Q) \<and> \<not> (P \<and> S) \<and> \<not> (Q \<and> S)"
    by blast
qed

lemma tupletMatches_straddle:
  assumes "a \<le> Suc c" and "c \<le> b"
  shows "tupletMatches k (sieveByte a c i) + tupletMatches k (sieveByte (Suc c) b i) +
         byteStraddle k a c b i = tupletMatches k (sieveByte a b i)"
  unfolding tupletMatches_def byteStraddle_def
proof (rule length_filter_split3)
  fix m :: "8 word"
  assume "m \<in> set (kBitmasks k)"
  then have m: "m \<noteq> 0" by (rule kBitmasks_nonzero)
  show "sieveByte a b i AND m = m \<longleftrightarrow>
        sieveByte a c i AND m = m \<or> sieveByte (Suc c) b i AND m = m \<or>
        (sieveByte a b i AND m = m \<and> list_ex (\<lambda>n. n \<le> c) (decodeByte i m) \<and>
         list_ex (\<lambda>n. c < n) (decodeByte i m))"
    by (rule match_three_way(1) [OF assms m])
  show "\<not> (sieveByte a c i AND m = m \<and> sieveByte (Suc c) b i AND m = m) \<and>
        \<not> (sieveByte a c i AND m = m \<and>
           (sieveByte a b i AND m = m \<and> list_ex (\<lambda>n. n \<le> c) (decodeByte i m) \<and>
            list_ex (\<lambda>n. c < n) (decodeByte i m))) \<and>
        \<not> (sieveByte (Suc c) b i AND m = m \<and>
           (sieveByte a b i AND m = m \<and> list_ex (\<lambda>n. n \<le> c) (decodeByte i m) \<and>
            list_ex (\<lambda>n. c < n) (decodeByte i m)))"
    by (rule match_three_way(2) [OF assms m])
qed

lemma smallCount_straddle:
  assumes "a \<le> Suc c" and "c \<le> b"
  shows "smallCount k a c + smallCount k (Suc c) b + smallStraddle k a c b = smallCount k a b"
  unfolding smallCount_def smallStraddle_def
  by (rule length_filter_split3) (use assms smallTable_ordered in \<open>fastforce+\<close>)

lemma straddle_primes: "straddleCount 0 a c b = 0"
proof -
  have "smallStraddle 0 a c b = 0"
    by (simp add: smallStraddle_def smallTable_def)
  moreover have "byteStraddle 0 a c b i = 0" for i
    by (simp add: byteStraddle_def kBitmasks_def)
  ultimately show ?thesis
    by (simp add: straddleCount_def)
qed

lemma intervalCount_straddle:
  assumes "a \<le> Suc c" and "c \<le> b"
  shows "intervalCount k a c + intervalCount k (Suc c) b + straddleCount k a c b = intervalCount k a b"
proof (cases "k = 0")
  case True
  then show ?thesis
    using intervalCount_split(2) [OF assms] by (simp add: straddle_primes)
next
  case False
  let ?N = "Suc (byteIndex b)"
  have nb: "byteIndex b < ?N" and nc: "byteIndex c < ?N"
    using byteIndex_mono [OF assms(2)] by simp_all
  note f = finder_part_as_sum [OF nb] finder_part_as_sum [OF nc]
  have cb: "countByte k w = tupletMatches k w" for w
    using False by (simp add: countByte_def)
  have st: "sum_list (map (byteStraddle k a c b) [0..<?N]) = (\<Sum>i = 0..<?N. byteStraddle k a c b i)"
    by (simp only: interv_sum_list_conv_sum_set_nat set_upt)
  have "(\<Sum>i = 0..<?N. countByte k (sieveByte a c i)) +
        (\<Sum>i = 0..<?N. countByte k (sieveByte (Suc c) b i)) +
        (\<Sum>i = 0..<?N. byteStraddle k a c b i)
        = (\<Sum>i = 0..<?N. countByte k (sieveByte a c i) + countByte k (sieveByte (Suc c) b i) +
             byteStraddle k a c b i)"
    by (simp only: sum.distrib)
  also have "\<dots> = (\<Sum>i = 0..<?N. countByte k (sieveByte a b i))"
    by (simp only: cb tupletMatches_straddle [OF assms])
  finally show ?thesis
    unfolding intervalCount_def straddleCount_def f st
    using smallCount_straddle [OF assms, of k] by simp
qed

lemma countTuplets_empty_interval:
  assumes "b < maxStop" and "k < 7"
  shows "fst (countTuplets s (of_nat k) (b + 1) b) =
         Inl (if maxStop \<le> b + 1 then InvalidBound else InvalidInterval)"
proof -
  let ?s1 = "s\<lparr>flags := push_bit k COUNT_PRIMES\<rparr>"
  have sf: "setFlags s (push_bit (unat (of_nat k :: u32)) COUNT_PRIMES) = (Inr (), ?s1)"
    using count_flag_public [OF assms(2)]
    by (simp add: setFlags_def unat_of_nat_below_7 [OF assms(2)])
  have nb: "\<not> maxStop \<le> b"
    using assms(1) by (simp only: not_le)
  have "unat (b + 1) = Suc (unat b)"
    by (rule unat_succ_below(1) [OF assms(1)])
  then have lt: "b < b + 1"
    by (simp add: word_less_nat_alt)
  show ?thesis
  proof (cases "maxStop \<le> b + 1")
    case True
    then show ?thesis
      by (simp add: countTuplets_def sf andThen_def sieve2_cases)
  next
    case False
    have "fst (sieve (?s1\<lparr>start := b + 1, stop := b\<rparr>)) = Inl InvalidInterval"
      using lt by (simp add: fst_sieve)
    then show ?thesis
      using False nb
      by (cases "sieve (?s1\<lparr>start := b + 1, stop := b\<rparr>)")
         (simp add: countTuplets_def sf andThen_def sieve2_cases)
  qed
qed

text \<open>
  C1, as stated, fails.  For twins (type 1), \<open>a = 0\<close>, \<open>c = 4\<close>, \<open>b = 5\<close>: the twin (3, 5)
  straddles \<open>c\<close> and is counted over [0, 5] but in neither [0, 4] nor [5, 5], so the two
  parts add up to 0 and the whole is 1.  And \<open>c = b\<close> is allowed by the claim, but
  for \<open>c = b = 10\<close> the second call, over [11, 10], raises InvalidInterval instead of
  returning a count.
\<close>

theorem split_counts_counterexample:
  "fst (countTuplets newPrimeSieve 1 0 4) = Inr 0 \<and>
   fst (countTuplets newPrimeSieve 1 (4 + 1) 5) = Inr 0 \<and>
   fst (countTuplets newPrimeSieve 1 0 5) = Inr 1 \<and>
   fst (getPrimeCount2 newPrimeSieve (10 + 1) 10) = Inl InvalidInterval"
proof -
  have m: "(4 :: u64) < maxStop" "(5 :: u64) < maxStop"
    by (simp_all add: maxStop_value)
  have 1: "fst (countTuplets newPrimeSieve 1 0 4) = Inr 0"
    using countTuplets_value [of 0 4 1 newPrimeSieve] m
    by (simp add: intervalCount_def smallCount_def smallTable_def)
  have 2: "fst (countTuplets newPrimeSieve 1 (4 + 1) 5) = Inr 0"
    using countTuplets_value [of 5 5 1 newPrimeSieve] m
    by (simp add: intervalCount_def smallCount_def smallTable_def)
  have 3: "fst (countTuplets newPrimeSieve 1 0 5) = Inr 1"
    using countTuplets_value [of 0 5 1 newPrimeSieve] m
    by (simp add: intervalCount_def smallCount_def smallTable_def)
  have 4: "fst (getPrimeCount2 newPrimeSieve (10 + 1) 10) = Inl InvalidInterval"
    by (simp add: getPrimeCount2_def setFlags_COUNT_PRIMES andThen_def sieve2_cases
        maxStop_value sieve_def Let_def reset_def)
  from 1 2 3 4 show ?thesis by simp
qed

text \<open>
  C1, amended: for all \<open>a \<le> c < b\<close> with \<open>b\<close> below the maximum stop, the three calls
  return normally and count_primes(a, c) + count_primes(c + 1, b) = count_primes(a, b).
  For the count of each type \<open>k < 7\<close> (k-tuplets for \<open>k \<ge> 1\<close>) the two parts and the
  tuplets that straddle \<open>c\<close> add up to the count of the whole interval:
  count(a, c) + count(c + 1, b) + straddleCount = count(a, b), where \<open>straddleCount\<close> is
  the number of tuplets counted over [a, b] that have a member \<open>\<le> c\<close> and a member
  \<open>> c\<close>.  A tuplet is counted only by a call whose interval holds all its members, so
  one that straddles \<open>c\<close> is counted in neither part; no prime straddles.  The counts
  do not depend on the object the calls are made on.  For \<open>c = b\<close> the second call,
  over [b + 1, b], returns no count: it raises InvalidInterval, or InvalidBound when
  \<open>b + 1\<close> is no longer below the maximum stop.
\<close>

theorem split_counts:
  assumes "a \<le> c" and "c < b" and "b < maxStop" and "k < 7"
  shows "(\<exists>x y z. fst (getPrimeCount2 s1 a c) = Inr x \<and>
                  fst (getPrimeCount2 s2 (c + 1) b) = Inr y \<and>
                  fst (getPrimeCount2 s3 a b) = Inr z \<and> x + y = z) \<and>
         (\<exists>x y z. fst (countTuplets s1 (of_nat k) a c) = Inr x \<and>
                  fst (countTuplets s2 (of_nat k) (c + 1) b) = Inr y \<and>
                  fst (countTuplets s3 (of_nat k) a b) = Inr z \<and>
                  unat x + unat y + straddleCount k (unat a) (unat c) (unat b) = unat z) \<and>
         straddleCount 0 (unat a) (unat c) (unat b) = 0 \<and>
         fst (getPrimeCount2 s4 (b + 1) b) =
           Inl (if maxStop \<le> b + 1 then InvalidBound else InvalidInterval) \<and>
         fst (countTuplets s4 (of_nat k) (b + 1) b) =
           Inl (if maxStop \<le> b + 1 then InvalidBound else InvalidInterval)"
proof -
  note u = unat_succ_below [OF assms(2)]
  have cm: "c < maxStop" and ab: "a \<le> b"
    using assms(1,2,3) by simp_all
  have le: "unat a \<le> Suc (unat c)" "unat c \<le> unat b"
    using assms(1,2) by (simp_all add: word_le_nat_alt word_less_nat_alt)
  have v: "fst (countTuplets s1 (of_nat j) a c) = Inr (of_nat (intervalCount j (unat a) (unat c)))"
    "fst (countTuplets s2 (of_nat j) (c + 1) b) = Inr (of_nat (intervalCount j (Suc (unat c)) (unat b)))"
    "fst (countTuplets s3 (of_nat j) a b) = Inr (of_nat (intervalCount j (unat a) (unat b)))"
    if "j < 7" for j
    using countTuplets_value [OF assms(1) cm that, of s1]
      countTuplets_value [OF u(2) assms(3) that, of s2]
      countTuplets_value [OF ab assms(3) that, of s3]
    by (simp_all add: u(1))
  have "(of_nat (intervalCount 0 (unat a) (unat c)) :: u64) +
        of_nat (intervalCount 0 (Suc (unat c)) (unat b)) =
        of_nat (intervalCount 0 (unat a) (unat c) + intervalCount 0 (Suc (unat c)) (unat b))"
    by simp
  also have "\<dots> = of_nat (intervalCount 0 (unat a) (unat b))"
    by (simp only: intervalCount_split(2) [OF le])
  finally have primes: "\<exists>x y z. fst (getPrimeCount2 s1 a c) = Inr x \<and>
                  fst (getPrimeCount2 s2 (c + 1) b) = Inr y \<and>
                  fst (getPrimeCount2 s3 a b) = Inr z \<and> x + y = z"
    using v [of 0] by (simp add: getPrimeCount2_countTuplets)
  have "unat (of_nat (intervalCount k (unat a) (unat c)) :: u64) +
        unat (of_nat (intervalCount k (Suc (unat c)) (unat b)) :: u64) +
        straddleCount k (unat a) (unat c) (unat b)
        = unat (of_nat (intervalCount k (unat a) (unat b)) :: u64)"
    using intervalCount_straddle [OF le, of k]
    by (simp only: unat_intervalCount [OF cm] unat_intervalCount [OF assms(3)])
  then have tuplets: "\<exists>x y z. fst (countTuplets s1 (of_nat k) a c) = Inr x \<and>
                  fst (countTuplets s2 (of_nat k) (c + 1) b) = Inr y \<and>
                  fst (countTuplets s3 (of_nat k) a b) = Inr z \<and>
                  unat x + unat y + straddleCount k (unat a) (unat c) (unat b) = unat z"
    using v [OF assms(4)] by simp
  have e1: "fst (getPrimeCount2 s4 (b + 1) b) =
           Inl (if maxStop \<le> b + 1 then InvalidBound else InvalidInterval)"
    using countTuplets_empty_interval [OF assms(3), of 0 s4]
    by (simp add: getPrimeCount2_countTuplets)
  have e2: "fst (countTuplets s4 (of_nat k) (b + 1) b) =
           Inl (if maxStop \<le> b + 1 then InvalidBound else InvalidInterval)"
    by (rule countTuplets_empty_interval [OF assms(3,4)])
  from primes tuplets straddle_primes [of "unat a" "unat c" "unat b"] e1 e2
  show ?thesis by blast
qed

lemma straddle_twins_0_4_5: "straddleCount 1 0 4 5 = 1"
proof -
  have "byteStraddle 1 0 4 5 0 = 0"
    by (simp add: byteStraddle_def sieveByte_stop_below_7 kBitmasks_def)
  then show ?thesis
    by (simp add: straddleCount_def smallStraddle_def smallTable_def byteIndex_def)
qed

theorem split_counts_witness:
  "(0 :: u64) \<le> 4 \<and> (4 :: u64) < 5 \<and> (5 :: u64) < maxStop \<and> (1 :: nat) < 7 \<and>
   (\<exists>x y z. fst (getPrimeCount2 newPrimeSieve 0 4) = Inr x \<and>
            fst (getPrimeCount2 newPrimeSieve (4 + 1) 5) = Inr y \<and>
            fst (getPrimeCount2 newPrimeSieve 0 5) = Inr z \<and> x + y = z) \<and>
   (\<exists>x y z. fst (countTuplets newPrimeSieve (of_nat 1) 0 4) = Inr x \<and>
            fst (countTuplets newPrimeSieve (of_nat 1) (4 + 1) 5) = Inr y \<and>
            fst (countTuplets newPrimeSieve (of_nat 1) 0 5) = Inr z \<and>
            unat x + unat y + 1 = unat z) \<and>
   fst (getPrimeCount2 newPrimeSieve (5 + 1) 5) = Inl InvalidInterval \<and>
   fst (countTuplets newPrimeSieve (of_nat 1) (5 + 1) 5) = Inl InvalidInterval"
proof -
  have h: "(0 :: u64) \<le> 4" "(4 :: u64) < 5" "(5 :: u64) < maxStop" "(1 :: nat) < 7"
    by (simp_all add: maxStop_value)
  have n: "\<not> maxStop \<le> (5 :: u64) + 1"
    by (simp add: maxStop_value)
  have u: "unat (0 :: u64) = 0" "unat (4 :: u64) = 4" "unat (5 :: u64) = 5"
    by simp_all
  show ?thesis
    using h split_counts [OF h, of newPrimeSieve newPrimeSieve newPrimeSieve newPrimeSieve]
    by (simp only: u straddle_twins_0_4_5 n if_False simp_thms)
qed

subsection \<open>Errors\<close>







subsection \<open>Septuplets over [0, 10^7]\<close>

lemma isPrime_iff: "isPrime n \<longleftrightarrow> 2 \<le> n \<and> (\<forall>d. 2 \<le> d \<and> d < n \<longrightarrow> \<not> d dvd n)"
  by (auto simp: isPrime_def filter_empty_conv)

text \<open>Trial division up to the square root is enough.\<close>

lemma isPrime_by_trial:
  assumes "2 \<le> n" and "n < m * m" and "list_all (\<lambda>d. \<not> d dvd n) [2..<m]"
  shows "isPrime n"
proof -
  have small: "\<not> d dvd n" if "2 \<le> d" "d < m" for d
    using assms(3) that by (simp add: list_all_iff)
  have "\<not> d dvd n" if d: "2 \<le> d" "d < n" for d
  proof
    assume dv: "d dvd n"
    then obtain e where e: "n = d * e" by (auto simp: dvd_def)
    have e2: "2 \<le> e"
    proof (rule ccontr)
      assume "\<not> 2 \<le> e"
      then have "e = 0 \<or> e = 1" by arith
      then show False using e d assms(1) by auto
    qed
    have edv: "e dvd n" using e by simp
    show False
    proof (cases "d < m")
      case True
      then show ?thesis using small [OF d(1)] dv by simp
    next
      case False
      have "e < m"
      proof (rule ccontr)
        assume "\<not> e < m"
        then have "m * m \<le> d * e" using False by (simp add: mult_le_mono)
        then show False using e assms(2) by simp
      qed
      then show ?thesis using small [OF e2] edv by simp
    qed
  qed
  then show ?thesis using assms(1) by (simp add: isPrime_iff)
qed

lemma isPrime_165701: "isPrime 165701"
  by (rule isPrime_by_trial [where m = 408]) simp_all

lemma isPrime_165703: "isPrime 165703"
  by (rule isPrime_by_trial [where m = 408]) simp_all

lemma isPrime_165707: "isPrime 165707"
  by (rule isPrime_by_trial [where m = 408]) simp_all

lemma isPrime_165709: "isPrime 165709"
  by (rule isPrime_by_trial [where m = 408]) simp_all

lemma isPrime_165713: "isPrime 165713"
  by (rule isPrime_by_trial [where m = 408]) simp_all

lemma isPrime_165719: "isPrime 165719"
  by (rule isPrime_by_trial [where m = 408]) simp_all

lemma isPrime_165721: "isPrime 165721"
  by (rule isPrime_by_trial [where m = 408]) simp_all

lemma upt_0_8: "[0..<8] = [0, 1, 2, 3, 4, 5, 6, 7]"
  by code_simp

lemma isPrime_11_to_31:
  "isPrime 11" "isPrime 13" "isPrime 17" "isPrime 19" "isPrime 23" "isPrime 29" "isPrime 31"
  by (rule isPrime_by_trial [where m = 6], simp, simp, simp add: upt_rec_numeral)+

lemma septuplet_byte_0: "tupletMatches 6 (sieveByte 7 10000000 0) = 1"
proof -
  let ?w = "sieveByte 7 10000000 0"
  have "?w = of_bool (isPrime 7) + 254"
    by (simp add: sieveByte_def upt_0_8 sieveBit_def bitNumber_def bitValues_def
        NUMBERS_PER_BYTE_def isPrime_11_to_31)
  then have "?w AND 0xfe = 0xfe"
    by (cases "isPrime 7") simp_all
  then show ?thesis
    by (simp add: tupletMatches_def kBitmasks_def)
qed

lemma septuplet_byte_5523: "tupletMatches 6 (sieveByte 7 10000000 5523) = 1"
proof -
  let ?w = "sieveByte 7 10000000 5523"
  have "?w = of_bool (isPrime 165697) + 254"
    by (simp add: sieveByte_def upt_0_8 sieveBit_def bitNumber_def bitValues_def
        NUMBERS_PER_BYTE_def isPrime_165701 isPrime_165703 isPrime_165707 isPrime_165709
        isPrime_165713 isPrime_165719 isPrime_165721)
  then have "?w AND 0xfe = 0xfe"
    by (cases "isPrime 165697") simp_all
  then show ?thesis
    by (simp add: tupletMatches_def kBitmasks_def)
qed

lemma decodeByte_septuplet:
  "decodeByte b 0xfe = [b * 30 + 11, b * 30 + 13, b * 30 + 17, b * 30 + 19, b * 30 + 23,
                        b * 30 + 29, b * 30 + 31]"
proof -
  have "filter (bit (0xfe :: 8 word)) [0, 1, 2, 3, 4, 5, 6, 7] = [1, 2, 3, 4, 5, 6, 7]"
    by code_simp
  then show ?thesis
    by (simp add: decodeByte_def upt_0_8 bitNumber_def bitValues_def NUMBERS_PER_BYTE_def)
qed

lemma finderCount_6_bounds:
  assumes "7 \<le> lo" and "byteIndex hi < N" and "i < j" and "j < N"
    and "tupletMatches 6 (sieveByte lo hi i) = 1" and "tupletMatches 6 (sieveByte lo hi j) = 1"
  shows "2 \<le> finderCount 6 lo hi" and "finderCount 6 lo hi \<le> N"
proof -
  let ?g = "\<lambda>i. countByte 6 (sieveByte lo hi i)"
  have f: "finderCount 6 lo hi = sum ?g {0..<N}"
    by (rule finderCount_as_sum [OF assms(1,2)])
  have "sum ?g {i, j} \<le> sum ?g {0..<N}"
    by (rule sum_mono2) (use assms(3,4) in auto)
  moreover have "sum ?g {i, j} = 2"
    using assms(3,5,6) by (simp add: countByte_def)
  ultimately show "2 \<le> finderCount 6 lo hi"
    by (simp only: f)
  have "?g n \<le> 1" for n
  proof -
    have "length (filter (\<lambda>m. sieveByte lo hi n AND m = m) (kBitmasks 6)) \<le> length (kBitmasks 6)"
      by (rule length_filter_le)
    then show ?thesis
      by (simp add: countByte_def tupletMatches_def kBitmasks_def)
  qed
  then have "sum ?g {0..<N} \<le> sum (\<lambda>n. 1) {0..<N}"
    by (rule sum_mono)
  then show "finderCount 6 lo hi \<le> N"
    by (simp add: f)
qed

lemma byteIndex_10_7: "byteIndex 10000000 < 333334"
  by (simp add: byteIndex_def NUMBERS_PER_BYTE_def)

lemma septuplets_at_least_2: "2 \<le> finderCount 6 7 10000000"
  by (rule finderCount_6_bounds(1) [OF _ byteIndex_10_7 _ _ septuplet_byte_0 septuplet_byte_5523])
     simp_all

lemma septuplets_at_most: "finderCount 6 7 10000000 \<le> 333334"
  by (rule finderCount_6_bounds(2) [OF _ byteIndex_10_7 _ _ septuplet_byte_0 septuplet_byte_5523])
     simp_all

lemma countTuplets_septuplets:
  "fst (countTuplets s 6 0 10000000) = Inr (of_nat (finderCount 6 7 10000000))"
proof -
  have "(0 :: u64) \<le> 10000000" "(10000000 :: u64) < maxStop" "(6 :: nat) < 7"
    by (simp_all add: maxStop_value)
  from countTuplets_value [OF this, of s] show ?thesis
    by (simp add: intervalCount_def smallCount_def smallTable_def)
qed

text \<open>
  C4, as stated, fails.  The calls of \<open>doSmallPrime\<close> add nothing to counts[6] over
  [0, 10^7] (no entry of the table has type 6, so no tuplet starting at 5 is counted as
  a septuplet), and the count that \<open>sieve()\<close> leaves is not 1: the finder counts the
  septuplets that start at 11 and at 165701.
\<close>

theorem septuplets_counterexample:
  "smallHits (newPrimeSieve\<lparr>flags := push_bit 6 COUNT_PRIMES, start := 0, stop := 10000000\<rparr>) 6 = 0 \<and>
   fst (countTuplets newPrimeSieve 6 0 10000000) \<noteq> Inr 1"
proof -
  have "smallHits (newPrimeSieve\<lparr>flags := push_bit 6 COUNT_PRIMES, start := 0, stop := 10000000\<rparr>) 6 = 0"
    by (simp add: smallHits_def smallHit_def)
  moreover have "(of_nat (finderCount 6 7 10000000) :: u64) \<noteq> 1"
  proof
    assume "(of_nat (finderCount 6 7 10000000) :: u64) = 1"
    then have "unat (of_nat (finderCount 6 7 10000000) :: u64) = 1"
      by simp
    moreover have "finderCount 6 7 10000000 < 2 ^ 64"
      using septuplets_at_most by simp
    ultimately have "finderCount 6 7 10000000 = 1"
      by (simp add: unat_of_nat)
    then show False
      using septuplets_at_least_2 by simp
  qed
  ultimately show ?thesis
    by (simp add: countTuplets_septuplets)
qed

text \<open>
  C4, amended: count_septuplets(0, 10^7) counts no tuplet that starts at 5.  The table
  of small primes and tuplets has no septuplet entry (its largest is the quintuplet
  5, 7, 11, 13, 17), so the count is exactly the number of septuplet matches the finder
  finds among the numbers from 7 on; over [0, 10^7] that number is at least 2, the bytes
  0 and 5523 (the septuplets 11, 13, 17, 19, 23, 29, 31 and 165701, \<dots>, 165721)
  matching.
\<close>

theorem septuplets_0_10_7:
  "fst (countTuplets s 6 0 10000000) = Inr (of_nat (finderCount 6 7 10000000)) \<and>
   smallCount 6 0 10000000 = 0 \<and>
   2 \<le> finderCount 6 7 10000000 \<and> finderCount 6 7 10000000 \<le> 333334 \<and>
   tupletMatches 6 (sieveByte 7 10000000 0) = 1 \<and>
   decodeByte 0 0xfe = [11, 13, 17, 19, 23, 29, 31] \<and>
   tupletMatches 6 (sieveByte 7 10000000 5523) = 1 \<and>
   decodeByte 5523 0xfe = [165701, 165703, 165707, 165709, 165713, 165719, 165721]"
proof -
  have "smallCount 6 0 10000000 = 0"
    by (simp add: smallCount_def smallTable_def)
  moreover have "decodeByte 0 0xfe = [11, 13, 17, 19, 23, 29, 31]"
    by (simp add: decodeByte_septuplet)
  moreover have "decodeByte 5523 0xfe = [165701, 165703, 165707, 165709, 165713, 165719, 165721]"
    by (simp add: decodeByte_septuplet)
  ultimately show ?thesis
    using countTuplets_septuplets [of s] septuplets_at_least_2 septuplets_at_most
      septuplet_byte_0 septuplet_byte_5523
    by simp
qed

end
